theory Spec2Isabelle
  imports
    Complex_Main
    "HOL-Library.AList"
    "HOL-Library.Multiset"
    "HOL-Library.Char_ord"
    "HOL-Library.List_Lexorder"
    "HOL-Library.Log_Nat"
begin

unbundle bit_operations_syntax

section \<open>Common JavaScript notions\<close>

text \<open>
  JavaScript strings are modelled as \<^typ>\<open>string\<close>; the order on them (used by IndexedDB
  for string keys) is the lexicographic order of \<open>List_Lexorder\<close> over \<open>Char_ord\<close>.
  Timestamps (\<^verbatim>\<open>Date\<close> objects) are their epoch milliseconds, an \<^typ>\<open>int\<close>;
  only valid dates are modelled.
\<close>

datatype js_error =
    TypeError
  | ConstraintError
  | SnapshotNotFound
  | InvalidImportFormat
  | SyntaxError
  | InvalidStateError

text \<open>
  A JavaScript \<^verbatim>\<open>Map\<close> is modelled by the list of its entries in insertion order.
  \<^verbatim>\<open>Map.prototype.set\<close> overwrites the value of a key that is present, in place, and
  appends a key that is absent: this is \<^const>\<open>AList.update\<close>.
\<close>

type_synonym ('k, 'v) js_map = "('k \<times> 'v) list"

definition Map_set :: "'k \<Rightarrow> 'v \<Rightarrow> ('k, 'v) js_map \<Rightarrow> ('k, 'v) js_map" where
  "Map_set k v m = AList.update k v m"

definition Map_has :: "'k \<Rightarrow> ('k, 'v) js_map \<Rightarrow> bool" where
  "Map_has k m = (k \<in> set (map fst m))"

definition Map_get :: "'k \<Rightarrow> ('k, 'v) js_map \<Rightarrow> 'v option" where
  "Map_get k m = map_of m k"

definition Map_delete :: "'k \<Rightarrow> ('k, 'v) js_map \<Rightarrow> ('k, 'v) js_map" where
  "Map_delete k m = AList.delete k m"

text \<open>\<^verbatim>\<open>new Map(entries)\<close>: the entries are set one after the other.\<close>

definition new_Map :: "('k \<times> 'v) list \<Rightarrow> ('k, 'v) js_map" where
  "new_Map es = foldl (\<lambda>m (k, v). Map_set k v m) [] es"

text \<open>\<^verbatim>\<open>Array.from(m.entries())\<close>\<close>

definition Map_entries :: "('k, 'v) js_map \<Rightarrow> ('k \<times> 'v) list" where
  "Map_entries m = m"

text \<open>Truthiness of an optional boolean field (\<^verbatim>\<open>undefined\<close> and \<^verbatim>\<open>false\<close> are falsy).\<close>

fun truthy :: "bool option \<Rightarrow> bool" where
  "truthy (Some b) = b"
| "truthy None = False"


text \<open>
  \<^verbatim>\<open>Number.prototype.toString(radix)\<close> on integers: the digits of the absolute value,
  most significant first, after a minus sign for a negative number.
\<close>

definition digit_char :: "nat \<Rightarrow> char" where
  "digit_char d = ''0123456789abcdefghijklmnopqrstuvwxyz'' ! d"

function to_digits :: "nat \<Rightarrow> nat \<Rightarrow> string" where
  "to_digits radix n =
     (if radix < 2 \<or> n < radix then [digit_char n]
      else to_digits radix (n div radix) @ [digit_char (n mod radix)])"
  by pat_completeness auto
termination
  by (relation "measure snd") auto

declare to_digits.simps [simp del]

definition Number_toString :: "nat \<Rightarrow> int \<Rightarrow> string" where
  "Number_toString radix n =
     (if n < 0 then CHR ''-'' # to_digits radix (nat (- n)) else to_digits radix (nat n))"


section \<open>Snapshot manager (lib/storage/snapshots.ts)\<close>

datatype status = Working | Broken | Testing

text \<open>\<^verbatim>\<open>Omit<Snapshot, 'id'>\<close>, the argument of \<^verbatim>\<open>saveSnapshot\<close>.\<close>

record SnapshotDraft =
  timestamp :: int
  label :: string
  status :: status
  code :: string
  files :: "(string, string) js_map"
  compressedSize :: int
  originalSize :: int
  isMilestone :: "bool option"
  autoSave :: "bool option"
  description :: "string option"
  error :: "string option"
  dependencies :: "(string \<times> string) list option"

text \<open>\<^verbatim>\<open>interface Snapshot\<close>; the field \<^verbatim>\<open>id\<close> is \<open>snap_id\<close> here.\<close>

record Snapshot = SnapshotDraft +
  snap_id :: string

definition maxSnapshots :: nat where
  "maxSnapshots = 50"

definition maxAutoSaves :: nat where
  "maxAutoSaves = 10"

text \<open>
  The object store \<^verbatim>\<open>snapshots\<close> (key path \<^verbatim>\<open>id\<close>) is the list of its records in
  key order. The database is taken as opened, and a request fails only where IndexedDB
  specifies it for the data at hand: \<^verbatim>\<open>add\<close> of a key that is present is a
  \<^verbatim>\<open>ConstraintError\<close>.
\<close>

type_synonym snapshot_store = "Snapshot list"

definition store_add :: "Snapshot \<Rightarrow> snapshot_store \<Rightarrow> js_error + snapshot_store" where
  "store_add s db =
     (if snap_id s \<in> set (map snap_id db) then Inl ConstraintError
      else Inr (insort_key snap_id s db))"

definition store_get :: "string \<Rightarrow> snapshot_store \<Rightarrow> Snapshot option" where
  "store_get i db = find (\<lambda>s. snap_id s = i) db"

definition store_getAll :: "snapshot_store \<Rightarrow> Snapshot list" where
  "store_getAll db = db"

definition store_delete :: "string \<Rightarrow> snapshot_store \<Rightarrow> snapshot_store" where
  "store_delete i db = filter (\<lambda>s. snap_id s \<noteq> i) db"

text \<open>\<^verbatim>\<open>store.index('status').getAll(v)\<close>: the records with that status, in key order.\<close>

definition index_status_getAll :: "status \<Rightarrow> snapshot_store \<Rightarrow> Snapshot list" where
  "index_status_getAll v db = filter (\<lambda>s. status s = v) db"

text \<open>
  \<^verbatim>\<open>xs.sort((a, b) => b.timestamp.getTime() - a.timestamp.getTime())\<close>:
  a stable sort, newest first.
\<close>

definition sort_newest_first :: "Snapshot list \<Rightarrow> Snapshot list" where
  "sort_newest_first xs = sort_key (\<lambda>s. - timestamp s) xs"

definition getSnapshot :: "string \<Rightarrow> snapshot_store \<Rightarrow> Snapshot option" where
  "getSnapshot i db =
     (case store_get i db of
        Some result \<Rightarrow> Some (result\<lparr>files := new_Map (files result)\<rparr>)
      | None \<Rightarrow> None)"

definition getAllSnapshots :: "snapshot_store \<Rightarrow> Snapshot list" where
  "getAllSnapshots db =
     sort_newest_first (map (\<lambda>s. s\<lparr>files := new_Map (files s)\<rparr>) (store_getAll db))"

definition getLastWorkingSnapshot :: "snapshot_store \<Rightarrow> Snapshot option" where
  "getLastWorkingSnapshot db =
     (let workingSnapshots = index_status_getAll Working db in
      if length workingSnapshots > 0 then
        (let latest = hd (sort_newest_first workingSnapshots)
         in Some (latest\<lparr>files := new_Map (files latest)\<rparr>))
      else None)"

definition getMilestones :: "snapshot_store \<Rightarrow> Snapshot list" where
  "getMilestones db =
     sort_newest_first
       (map (\<lambda>s. s\<lparr>files := new_Map (files s)\<rparr>)
          (filter (\<lambda>s. isMilestone s = Some True) (store_getAll db)))"

definition deleteSnapshot :: "string \<Rightarrow> snapshot_store \<Rightarrow> snapshot_store" where
  "deleteSnapshot i db = store_delete i db"

definition cleanupAutoSaves :: "snapshot_store \<Rightarrow> snapshot_store" where
  "cleanupAutoSaves db =
     (let allSnapshots = getAllSnapshots db;
          autoSaves = filter (\<lambda>s. truthy (autoSave s)) allSnapshots
      in if length autoSaves > maxAutoSaves then
           foldl (\<lambda>d snapshot. deleteSnapshot (snap_id snapshot) d) db
             (drop maxAutoSaves autoSaves)
         else db)"

definition cleanupOldSnapshots :: "snapshot_store \<Rightarrow> snapshot_store" where
  "cleanupOldSnapshots db =
     (let allSnapshots = getAllSnapshots db;
          nonMilestones = filter (\<lambda>s. \<not> truthy (isMilestone s)) allSnapshots
      in if length nonMilestones > maxSnapshots then
           foldl (\<lambda>d snapshot. deleteSnapshot (snap_id snapshot) d) db
             (drop maxSnapshots nonMilestones)
         else db)"

text \<open>
  \<^verbatim>\<open>saveSnapshot\<close>. The argument \<open>nid\<close> is the string that \<^verbatim>\<open>nanoid(10)\<close> returns in this
  call. The result is the value the promise settles with, and the store afterwards: the
  two clean-ups run in transactions of their own, before the \<^verbatim>\<open>add\<close>.
\<close>

definition newSnapshot :: "string \<Rightarrow> SnapshotDraft \<Rightarrow> Snapshot" where
  "newSnapshot nid snapshot = SnapshotDraft.extend snapshot (Snapshot.fields (''snap_'' @ nid))"

definition saveSnapshot ::
  "string \<Rightarrow> SnapshotDraft \<Rightarrow> snapshot_store \<Rightarrow> (js_error + Snapshot) \<times> snapshot_store" where
  "saveSnapshot nid snapshot db =
     (let new = newSnapshot nid snapshot;
          db1 = (if truthy (autoSave new) then cleanupAutoSaves db else db);
          db2 = cleanupOldSnapshots db1;
          storableSnapshot = new\<lparr>files := Map_entries (files new)\<rparr>
      in case store_add storableSnapshot db2 of
           Inr db3 \<Rightarrow> (Inr new, db3)
         | Inl e \<Rightarrow> (Inl e, db2))"

text \<open>
  \<^verbatim>\<open>restoreSnapshot\<close>; \<open>now\<close> is \<^verbatim>\<open>new Date()\<close>. The restore point is built from
  the fields of the snapshot that was read (lines 521 to 530 of the source).
\<close>

definition restoreSnapshot ::
  "string \<Rightarrow> string \<Rightarrow> int \<Rightarrow> snapshot_store \<Rightarrow> (js_error + Snapshot) \<times> snapshot_store" where
  "restoreSnapshot i nid now db =
     (case getSnapshot i db of
        None \<Rightarrow> (Inl SnapshotNotFound, db)
      | Some snapshot \<Rightarrow>
          (case saveSnapshot nid
                  \<lparr>timestamp = now,
                   label = ''Before restore to: '' @ label snapshot,
                   status = Testing,
                   code = code snapshot,
                   files = files snapshot,
                   compressedSize = compressedSize snapshot,
                   originalSize = originalSize snapshot,
                   isMilestone = None,
                   autoSave = None,
                   description = Some ''Automatic backup before restore'',
                   error = None,
                   dependencies = None\<rparr> db of
             (Inl e, db') \<Rightarrow> (Inl e, db')
           | (Inr _, db') \<Rightarrow> (Inr snapshot, db')))"

text \<open>
  The export bundle is the document that \<^verbatim>\<open>JSON.stringify\<close> writes; the model keeps it
  as a value. \<open>JSON_parse\<close> of a text is either a syntax error or a document whose
  \<^verbatim>\<open>snapshots\<close> field, when it is an array, is a list of snapshot records.
  \<open>JSON_parse_stringify\<close> is the assumption that parsing the text of a bundle gives its
  fields back (a \<^verbatim>\<open>Date\<close> is written as an ISO string, which \<^verbatim>\<open>new Date\<close> reads
  back to the same instant; absent optional fields stay absent).
\<close>

record ExportData =
  version :: string
  exportDate :: string
  snapshots :: "Snapshot list"

datatype parsed_json = ParseFailure | Parsed "Snapshot list option"

definition JSON_parse_stringify :: "ExportData \<Rightarrow> parsed_json" where
  "JSON_parse_stringify d = Parsed (Some (snapshots d))"

definition exportSnapshots :: "string \<Rightarrow> snapshot_store \<Rightarrow> ExportData" where
  "exportSnapshots today db =
     \<lparr>version = ''1.0'',
      exportDate = today,
      snapshots = map (\<lambda>s. s\<lparr>files := Map_entries (files s)\<rparr>) (getAllSnapshots db)\<rparr>"

text \<open>
  The loop of \<^verbatim>\<open>importSnapshots\<close>. \<open>nanoid k\<close> is the identifier generated by the
  \<open>k\<close>-th call of \<^verbatim>\<open>nanoid\<close>; a rejected \<^verbatim>\<open>saveSnapshot\<close> leaves the loop
  (the \<^verbatim>\<open>catch\<close> rethrows).
\<close>

fun import_loop ::
  "(nat \<Rightarrow> string) \<Rightarrow> nat \<Rightarrow> Snapshot list \<Rightarrow> nat \<Rightarrow> snapshot_store
     \<Rightarrow> (js_error + nat) \<times> snapshot_store" where
  "import_loop nanoid k [] imported db = (Inr imported, db)"
| "import_loop nanoid k (snapshot # rest) imported db =
     (case saveSnapshot (nanoid k)
             (SnapshotDraft.truncate (snapshot\<lparr>files := new_Map (files snapshot)\<rparr>)) db of
        (Inl e, db') \<Rightarrow> (Inl e, db')
      | (Inr _, db') \<Rightarrow> import_loop nanoid (Suc k) rest (imported + 1) db')"

definition importSnapshots ::
  "(nat \<Rightarrow> string) \<Rightarrow> parsed_json \<Rightarrow> snapshot_store \<Rightarrow> (js_error + nat) \<times> snapshot_store" where
  "importSnapshots nanoid importData db =
     (case importData of
        ParseFailure \<Rightarrow> (Inl SyntaxError, db)
      | Parsed None \<Rightarrow> (Inl InvalidImportFormat, db)
      | Parsed (Some snaps) \<Rightarrow> import_loop nanoid 0 snaps 0 db)"

text \<open>The two lists the retention caps count (the filters of the clean-up routines).\<close>

definition nonMilestones :: "Snapshot list \<Rightarrow> Snapshot list" where
  "nonMilestones xs = filter (\<lambda>s. \<not> truthy (isMilestone s)) xs"

definition autoSaves :: "Snapshot list \<Rightarrow> Snapshot list" where
  "autoSaves xs = filter (\<lambda>s. truthy (autoSave s)) xs"

text \<open>
  A run of \<^verbatim>\<open>saveSnapshot\<close> calls, each awaited before the next: the pairs are the
  identifier \<^verbatim>\<open>nanoid\<close> generates in the call and the draft passed to it.
\<close>

definition save_sequence :: "(string \<times> SnapshotDraft) list \<Rightarrow> snapshot_store \<Rightarrow> snapshot_store" where
  "save_sequence calls db = foldl (\<lambda>d (nid, snapshot). snd (saveSnapshot nid snapshot d)) db calls"

text \<open>Inputs for the examples: a ten-character identifier and a draft saved at time \<open>t\<close>.\<close>

definition nid_of :: "nat \<Rightarrow> string" where
  "nid_of k = (let ds = to_digits 10 k in replicate (10 - length ds) CHR ''0'' @ ds)"

definition draft_at :: "int \<Rightarrow> status \<Rightarrow> bool option \<Rightarrow> bool option \<Rightarrow> SnapshotDraft" where
  "draft_at t st milestone auto =
     \<lparr>timestamp = t, label = ''v'' @ Number_toString 10 t, status = st,
      code = ''code '' @ Number_toString 10 t,
      files = [(''main.tsx'', ''code '' @ Number_toString 10 t)],
      compressedSize = 6, originalSize = 6,
      isMilestone = milestone, autoSave = auto,
      description = None, error = None, dependencies = None\<rparr>"

text \<open>Runs of \<open>n\<close> automatic saves and of \<open>n\<close> manual saves, at times \<open>1\<close> to \<open>n\<close>.\<close>

definition autoSave_calls :: "nat \<Rightarrow> (string \<times> SnapshotDraft) list" where
  "autoSave_calls n = map (\<lambda>k. (nid_of k, draft_at (int k) Working None (Some True))) [1..<Suc n]"

definition manual_calls :: "nat \<Rightarrow> (string \<times> SnapshotDraft) list" where
  "manual_calls n = map (\<lambda>k. (nid_of k, draft_at (int k) Working None None)) [1..<Suc n]"

text \<open>The store of the specification's example: working at 1, broken at 2, working at 3.\<close>

definition three_snapshots :: snapshot_store where
  "three_snapshots =
     save_sequence
       [(nid_of 1, draft_at 1 Working None None),
        (nid_of 2, draft_at 2 Broken None None),
        (nid_of 3, draft_at 3 Working None None)] []"

text \<open>A store with one snapshot, saved at time 1.\<close>

definition one_snapshot :: snapshot_store where
  "one_snapshot = save_sequence [(nid_of 1, draft_at 1 Working None None)] []"

text \<open>A milestone saved at time 1, then 51 manual saves at times 2 to 52.\<close>

definition big_calls :: "(string \<times> SnapshotDraft) list" where
  "big_calls =
     (nid_of 1, draft_at 1 Working (Some True) None)
       # map (\<lambda>k. (nid_of k, draft_at (int k) Working None None)) [2..<53]"

definition big_store :: snapshot_store where
  "big_store = save_sequence big_calls []"

definition import_ids :: "nat \<Rightarrow> string" where
  "import_ids k = nid_of (60 + k)"

text \<open>The number a string of decimal digits denotes (used to tell identifiers apart).\<close>

definition digits_value :: "string \<Rightarrow> nat" where
  "digits_value ds = foldl (\<lambda>a c. 10 * a + (of_char c - 48)) 0 ds"


section \<open>JavaScript numbers\<close>

text \<open>
  A JavaScript number is an IEEE 754 double. The results of the arithmetic that the
  statistics of the response cache use are modelled by exact rationals, rounded to the
  nearest double, ties to the even significand (\<open>to_double\<close>). The exponent is not
  bounded here: the model has neither overflow nor subnormal numbers, which quotients
  and products of counters do not reach.

  \<open>floor_log2 x\<close> is the binary exponent of a positive \<open>x\<close>: the \<open>e\<close> with
  \<open>2 ^ e \<le> x < 2 ^ (e + 1)\<close>.
\<close>

definition floor_log2 :: "rat \<Rightarrow> int" where
  "floor_log2 x =
     (let (p, q) = quotient_of x; d = bitlen p - bitlen q
      in if 2 powi d \<le> x then d else d - 1)"

definition round_half_even :: "rat \<Rightarrow> int" where
  "round_half_even m =
     (let f = \<lfloor>m\<rfloor>; r = m - of_int f
      in if r < 1 / 2 then f else if 1 / 2 < r then f + 1 else if even f then f else f + 1)"

definition to_double :: "rat \<Rightarrow> rat" where
  "to_double x =
     (if x = 0 then 0
      else let e = floor_log2 \<bar>x\<bar>;
               m = round_half_even (\<bar>x\<bar> * 2 powi (52 - e))
           in sgn x * of_int m * 2 powi (e - 52))"

text \<open>The operators \<^verbatim>\<open>/\<close> and \<^verbatim>\<open>*\<close> on doubles, and the literal \<^verbatim>\<open>0.002\<close>.\<close>

definition js_divide :: "rat \<Rightarrow> rat \<Rightarrow> rat" where
  "js_divide a b = to_double (a / b)"

definition js_times :: "rat \<Rightarrow> rat \<Rightarrow> rat" where
  "js_times a b = to_double (a * b)"

text \<open>
  \<^verbatim>\<open>Math.round\<close>: the nearest integer, the greater one of two that are equally near.
\<close>

definition Math_round :: "rat \<Rightarrow> int" where
  "Math_round x = \<lfloor>x + 1 / 2\<rfloor>"


section \<open>Response cache (lib/claude/api.ts)\<close>

subsection \<open>Strings and patterns\<close>

text \<open>
  Characters are one byte wide here, so the strings of the model are the JavaScript
  strings whose code units are below 256. Letter case is the ASCII one, which is all
  that the patterns and the searched phrases of the source involve.
\<close>

definition toLowerCase_char :: "char \<Rightarrow> char" where
  "toLowerCase_char c =
     (if CHR ''A'' \<le> c \<and> c \<le> CHR ''Z'' then char_of (of_char c + (32::nat)) else c)"

definition toLowerCase :: "string \<Rightarrow> string" where
  "toLowerCase s = map toLowerCase_char s"

fun startsWith :: "string \<Rightarrow> string \<Rightarrow> bool" where
  "startsWith s [] = True"
| "startsWith [] (p # ps) = False"
| "startsWith (c # cs) (p # ps) = (c = p \<and> startsWith cs ps)"

text \<open>\<^verbatim>\<open>s.includes(p)\<close>\<close>

fun string_includes :: "string \<Rightarrow> string \<Rightarrow> bool" where
  "string_includes [] p = (p = [])"
| "string_includes (c # cs) p = (startsWith (c # cs) p \<or> string_includes cs p)"

text \<open>
  The two shapes of the regular expressions of \<^verbatim>\<open>findSimilarCacheEntry\<close>, all with the
  flag \<^verbatim>\<open>i\<close>: a word (\<^verbatim>\<open>/refactor/i\<close>), and a word, any characters of one line, and a
  second word (\<^verbatim>\<open>/fix.*error/i\<close>).
\<close>

datatype pattern = Word string | Word_then string string

definition line_terminator :: "char \<Rightarrow> bool" where
  "line_terminator c = (c = CHR 0x0A \<or> c = CHR 0x0D)"

text \<open>\<open>dot_star_then p s\<close>: \<^verbatim>\<open>.*\<close> followed by \<open>p\<close> matches at the start of \<open>s\<close>.\<close>

fun dot_star_then :: "string \<Rightarrow> string \<Rightarrow> bool" where
  "dot_star_then p [] = (p = [])"
| "dot_star_then p (c # cs) =
     (startsWith (c # cs) p \<or> (\<not> line_terminator c \<and> dot_star_then p cs))"

fun matches_from :: "string \<Rightarrow> string \<Rightarrow> string \<Rightarrow> bool" where
  "matches_from a b [] = (a = [] \<and> b = [])"
| "matches_from a b (c # cs) =
     ((startsWith (c # cs) a \<and> dot_star_then b (drop (length a) (c # cs)))
      \<or> matches_from a b cs)"

fun pattern_test :: "pattern \<Rightarrow> string \<Rightarrow> bool" where
  "pattern_test (Word w) s = string_includes (toLowerCase s) w"
| "pattern_test (Word_then a b) s = matches_from a b (toLowerCase s)"

subsection \<open>Types and configuration\<close>

datatype role = User | Assistant | System

record ClaudeMessage =
  role :: role
  content :: string

text \<open>
  \<^verbatim>\<open>interface ClaudeResponse\<close>; its fields \<^verbatim>\<open>content\<close> and \<^verbatim>\<open>code\<close> are
  \<open>response_content\<close> and \<open>response_code\<close> here.
\<close>

record ClaudeResponse =
  response_content :: string
  tokens :: "nat option"
  cached :: "bool option"
  response_code :: "string option"

text \<open>\<^verbatim>\<open>interface CacheEntry\<close>; its field \<^verbatim>\<open>timestamp\<close> is \<open>entry_timestamp\<close> here.\<close>

record CacheEntry =
  key :: string
  response :: ClaudeResponse
  entry_timestamp :: int
  hits :: nat

definition maxMemoryCacheSize :: nat where
  "maxMemoryCacheSize = 100"

definition topCacheEntries :: nat where
  "topCacheEntries = 20"


text \<open>
  The state of a \<^verbatim>\<open>ClaudeAPI\<close> object. The persistent cache is \<^verbatim>\<open>null\<close> or the object
  store \<^verbatim>\<open>responses\<close> of the opened database, by key. \<open>connection_closed\<close> says
  that the database connection held in \<^verbatim>\<open>persistentCache\<close> has been closed (by the
  browser, when the site data is cleared for instance): from then on
  \<^verbatim>\<open>persistentCache.transaction(...)\<close> throws an \<^verbatim>\<open>InvalidStateError\<close>. The two
  counters are natural numbers: the doubles of the source count exactly up to \<open>2 ^ 53\<close>.
\<close>

record ClaudeAPI =
  memoryCache :: "(string, CacheEntry) js_map"
  persistentCache :: "(string \<times> CacheEntry) list option"
  connection_closed :: bool
  totalRequests :: nat
  cacheHits :: nat

definition new_ClaudeAPI :: "(string \<times> CacheEntry) list option \<Rightarrow> ClaudeAPI" where
  "new_ClaudeAPI db =
     \<lparr>memoryCache = [], persistentCache = db, connection_closed = False,
      totalRequests = 0, cacheHits = 0\<rparr>"

subsection \<open>Cache keys\<close>

text \<open>
  The loop of \<^verbatim>\<open>generateCacheKey\<close> over the code units of the serialised request:
  \<^verbatim>\<open>hash = ((hash << 5) - hash) + char; hash = hash & hash\<close>. The shift and the
  bitwise operation work on 32-bit two's complement integers (\<open>ToInt32\<close>, the
  wrap-around written out); the subtraction and the addition between them are exact.
\<close>

definition ToInt32 :: "int \<Rightarrow> int" where
  "ToInt32 x = (x + 2 ^ 31) mod 2 ^ 32 - 2 ^ 31"

definition hash_step :: "int \<Rightarrow> char \<Rightarrow> int" where
  "hash_step hash c =
     (let hash1 = (ToInt32 (hash * 2 ^ 5) - hash) + int (of_char c)
      in ToInt32 hash1 AND ToInt32 hash1)"

definition hash_content :: "string \<Rightarrow> int" where
  "hash_content serialised = foldl hash_step 0 serialised"

text \<open>
  \<^verbatim>\<open>JSON.stringify({ messages, context })\<close> is a parameter of the model, \<open>stringify\<close>:
  the context is a \<^verbatim>\<open>Record<string, unknown>\<close>, of a type \<open>'c\<close> that is left open, and
  the serialisation throws (\<open>None\<close>) on a value it cannot write, a cyclic one for instance.
\<close>

type_synonym 'c stringify = "ClaudeMessage list \<Rightarrow> 'c option \<Rightarrow> string option"

definition generateCacheKey :: "'c stringify \<Rightarrow> ClaudeMessage list \<Rightarrow> 'c option \<Rightarrow> string option" where
  "generateCacheKey stringify messages context =
     (case stringify messages context of
        None \<Rightarrow> None
      | Some serialised \<Rightarrow>
          Some (''claude_'' @ Number_toString 36 (hash_content serialised)))"

subsection \<open>Cache operations\<close>

definition patterns :: "(pattern \<times> string) list" where
  "patterns =
     [(Word_then ''fix'' ''error'', ''error-fix''),
      (Word_then ''explain'' ''code'', ''code-explanation''),
      (Word_then ''add'' ''feature'', ''feature-addition''),
      (Word ''refactor'', ''refactoring''),
      (Word ''optimize'', ''optimization''),
      (Word ''test'', ''testing'')]"

text \<open>The first loop of \<^verbatim>\<open>findSimilarCacheEntry\<close>: the category of the query, if any.\<close>

definition query_category :: "string \<Rightarrow> string option" where
  "query_category query = map_option snd (find (\<lambda>(p, cat). pattern_test p query) patterns)"

definition findSimilarCacheEntry :: "string \<Rightarrow> (string, CacheEntry) js_map \<Rightarrow> CacheEntry option" where
  "findSimilarCacheEntry query memory =
     (case query_category query of
        None \<Rightarrow> None
      | Some category \<Rightarrow>
          map_option snd (find (\<lambda>(k, entry). string_includes k category) (Map_entries memory)))"


text \<open>
  An asynchronous method runs up to an \<^verbatim>\<open>await\<close>, is suspended there, and is resumed
  later; other calls on the object can run in between. The outcome of a piece of such a
  method is that it is suspended (with what it needs to go on), that it has returned, or
  that it has thrown: the last two settle the promise of the call.
\<close>

datatype ('w, 'a) progress = Suspended 'w | Returned 'a | Thrown js_error

text \<open>
  The two private methods that \<^verbatim>\<open>checkCache\<close> awaits on the persistent cache. A
  request on an object store is served in the order of the creation of the
  transactions, so a read gives what the store holds when the method is called, and a
  write is made then. \<^verbatim>\<open>updatePersistentCacheHits\<close> writes only if the store still has
  the key.
\<close>

definition getPersistentCacheEntry :: "string \<Rightarrow> ClaudeAPI \<Rightarrow> js_error + CacheEntry option" where
  "getPersistentCacheEntry k st =
     (case persistentCache st of
        None \<Rightarrow> Inr None
      | Some db \<Rightarrow> if connection_closed st then Inl InvalidStateError else Inr (map_of db k))"

definition updatePersistentCacheHits :: "string \<Rightarrow> nat \<Rightarrow> ClaudeAPI \<Rightarrow> (js_error + unit) \<times> ClaudeAPI" where
  "updatePersistentCacheHits k h st =
     (case persistentCache st of
        None \<Rightarrow> (Inr (), st)
      | Some db \<Rightarrow>
          if connection_closed st then (Inl InvalidStateError, st)
          else (Inr (),
                st\<lparr>persistentCache :=
                     Some (case map_of db k of
                             None \<Rightarrow> db
                           | Some entry \<Rightarrow> AList.update k (entry\<lparr>hits := h\<rparr>) db)\<rparr>))"

text \<open>
  The three places where \<^verbatim>\<open>checkCache\<close> waits, with what the rest of the method
  needs: the key, the query and the entry that the request will give; the outcome of
  \<^verbatim>\<open>updatePersistentCacheHits\<close> and the response to return; the result of
  \<^verbatim>\<open>findSimilarCacheEntry\<close>.
\<close>

datatype checkCache_wait =
    Await_getPersistentCacheEntry string string "CacheEntry option"
  | Await_updatePersistentCacheHits "js_error + unit" ClaudeResponse
  | Await_findSimilarCacheEntry "CacheEntry option"

text \<open>
  \<^verbatim>\<open>checkCache\<close> up to its first \<^verbatim>\<open>await\<close>. A hit in memory increments the hit count
  of the entry the map holds, and returns with no \<^verbatim>\<open>await\<close>. An exception of the
  serialisation, or of the start of a transaction, rejects the promise.
\<close>

definition checkCache_begin ::
  "'c stringify \<Rightarrow> string \<Rightarrow> 'c option \<Rightarrow> ClaudeAPI
     \<Rightarrow> (checkCache_wait, ClaudeResponse option) progress \<times> ClaudeAPI" where
  "checkCache_begin stringify query context st =
     (case generateCacheKey stringify [\<lparr>role = User, content = query\<rparr>] context of
        None \<Rightarrow> (Thrown TypeError, st)
      | Some cacheKey \<Rightarrow>
          (let st1 = st\<lparr>totalRequests := totalRequests st + 1\<rparr> in
           case Map_get cacheKey (memoryCache st1) of
             Some entry \<Rightarrow>
               (Returned (Some ((response entry)\<lparr>cached := Some True\<rparr>)),
                st1\<lparr>memoryCache := Map_set cacheKey (entry\<lparr>hits := hits entry + 1\<rparr>) (memoryCache st1),
                    cacheHits := cacheHits st1 + 1\<rparr>)
           | None \<Rightarrow>
               (case persistentCache st1 of
                  Some db \<Rightarrow>
                    (case getPersistentCacheEntry cacheKey st1 of
                       Inl e \<Rightarrow> (Thrown e, st1)
                     | Inr entry \<Rightarrow> (Suspended (Await_getPersistentCacheEntry cacheKey query entry), st1))
                | None \<Rightarrow>
                    (Suspended (Await_findSimilarCacheEntry (findSimilarCacheEntry query (memoryCache st1))),
                     st1))))"

text \<open>\<^verbatim>\<open>checkCache\<close> from one \<^verbatim>\<open>await\<close> to the next, or to its end.\<close>

fun checkCache_resume ::
  "checkCache_wait \<Rightarrow> ClaudeAPI \<Rightarrow> (checkCache_wait, ClaudeResponse option) progress \<times> ClaudeAPI" where
  "checkCache_resume (Await_getPersistentCacheEntry cacheKey query (Some entry)) st =
     (let entry1 = entry\<lparr>hits := hits entry + 1\<rparr>;
          st1 = st\<lparr>cacheHits := cacheHits st + 1,
                   memoryCache := Map_set cacheKey entry1 (memoryCache st)\<rparr>
      in case updatePersistentCacheHits cacheKey (hits entry1) st1 of
           (outcome, st2) \<Rightarrow>
             (Suspended (Await_updatePersistentCacheHits outcome ((response entry1)\<lparr>cached := Some True\<rparr>)),
              st2))"
| "checkCache_resume (Await_getPersistentCacheEntry cacheKey query None) st =
     (Suspended (Await_findSimilarCacheEntry (findSimilarCacheEntry query (memoryCache st))), st)"
| "checkCache_resume (Await_updatePersistentCacheHits (Inl e) cachedResponse) st = (Thrown e, st)"
| "checkCache_resume (Await_updatePersistentCacheHits (Inr u) cachedResponse) st =
     (Returned (Some cachedResponse), st)"
| "checkCache_resume (Await_findSimilarCacheEntry (Some similarEntry)) st =
     (Returned (Some ((response similarEntry)\<lparr>cached := Some True\<rparr>)),
      st\<lparr>cacheHits := cacheHits st + 1\<rparr>)"
| "checkCache_resume (Await_findSimilarCacheEntry None) st = (Returned None, st)"

text \<open>
  A call of \<^verbatim>\<open>checkCache\<close> that no other call overlaps: it is resumed until it settles.
  The result is the value of the promise (an exception, \<^verbatim>\<open>null\<close>, or a response) and
  the state afterwards.
\<close>

fun awaits_left :: "checkCache_wait \<Rightarrow> nat" where
  "awaits_left (Await_getPersistentCacheEntry cacheKey query entry) = 2"
| "awaits_left (Await_updatePersistentCacheHits outcome cachedResponse) = 1"
| "awaits_left (Await_findSimilarCacheEntry similarEntry) = 1"

function checkCache_settle ::
  "(checkCache_wait, ClaudeResponse option) progress \<times> ClaudeAPI
     \<Rightarrow> (js_error + ClaudeResponse option) \<times> ClaudeAPI" where
  "checkCache_settle (Suspended w, st) = checkCache_settle (checkCache_resume w st)"
| "checkCache_settle (Returned r, st) = (Inr r, st)"
| "checkCache_settle (Thrown e, st) = (Inl e, st)"
  by pat_completeness auto
termination
proof (relation "measure (\<lambda>(p, st). case p of Suspended w \<Rightarrow> awaits_left w | _ \<Rightarrow> 0)")
  show "wf (measure (\<lambda>(p, st). case p of Suspended w \<Rightarrow> awaits_left w | _ \<Rightarrow> 0))"
    by simp
next
  fix w :: checkCache_wait and st :: ClaudeAPI
  show "(checkCache_resume w st, Suspended w, st)
          \<in> measure (\<lambda>(p, st). case p of Suspended w \<Rightarrow> awaits_left w | _ \<Rightarrow> 0)"
    by (cases "(w, st)" rule: checkCache_resume.cases)
      (auto simp: Let_def split: prod.splits progress.splits)
qed

definition checkCache ::
  "'c stringify \<Rightarrow> string \<Rightarrow> 'c option \<Rightarrow> ClaudeAPI \<Rightarrow> (js_error + ClaudeResponse option) \<times> ClaudeAPI" where
  "checkCache stringify query context st =
     checkCache_settle (checkCache_begin stringify query context st)"

text \<open>
  \<^verbatim>\<open>cacheResponse\<close>; \<open>now\<close> is \<^verbatim>\<open>new Date()\<close>. The entry is set in memory, and the
  first key of the map deleted if the map has grown over its capacity, before the
  transaction on the persistent cache is started.
\<close>

definition cacheResponse ::
  "string \<Rightarrow> ClaudeResponse \<Rightarrow> int \<Rightarrow> ClaudeAPI \<Rightarrow> (js_error + unit) \<times> ClaudeAPI" where
  "cacheResponse k resp now st =
     (let entry = \<lparr>key = k, response = resp, entry_timestamp = now, hits = 0\<rparr>;
          memory1 = Map_set k entry (memoryCache st);
          memory2 = (if length memory1 > maxMemoryCacheSize
                     then (case memory1 of
                             [] \<Rightarrow> memory1
                           | (firstKey, _) # _ \<Rightarrow> Map_delete firstKey memory1)
                     else memory1);
          st1 = st\<lparr>memoryCache := memory2\<rparr>
      in case persistentCache st1 of
           None \<Rightarrow> (Inr (), st1)
         | Some db \<Rightarrow>
             if connection_closed st1 then (Inl InvalidStateError, st1)
             else (Inr (), st1\<lparr>persistentCache := Some (AList.update k entry db)\<rparr>))"

text \<open>
  \<^verbatim>\<open>loadCacheToMemory\<close>, which the constructor runs when the database has opened: a
  cursor over the index \<^verbatim>\<open>hits\<close> in the direction \<^verbatim>\<open>prev\<close> (most hits first, the
  greater key first among equal hits), of which the first \<open>topCacheEntries\<close> are set in
  memory. The steps of the cursor are taken together here. With a closed connection the
  transaction cannot be started, and nothing is loaded.
\<close>

definition loadCacheToMemory :: "ClaudeAPI \<Rightarrow> ClaudeAPI" where
  "loadCacheToMemory st =
     (case persistentCache st of
        None \<Rightarrow> st
      | Some db \<Rightarrow>
          if connection_closed st then st
          else st\<lparr>memoryCache :=
                    foldl (\<lambda>m entry. Map_set (key entry) entry m) (memoryCache st)
                      (take topCacheEntries (rev (sort_key hits (sort_key key (map snd db)))))\<rparr>)"

subsection \<open>Talking to the API\<close>

text \<open>
  What the network does in a call is an input of the model: \<^verbatim>\<open>fetch\<close> throws, or it
  returns a response with its \<^verbatim>\<open>ok\<close> flag, its status, and the value of
  \<^verbatim>\<open>response.json()\<close> (\<open>None\<close> when that throws), of which the fields read by the
  source are kept.
\<close>

record api_data =
  data_content :: "string option"
  data_error :: "string option"
  completion_tokens :: "nat option"
  total_tokens :: "nat option"

datatype fetch_outcome = Fetch_throws | Http_response bool nat "api_data option"

text \<open>
  The match of
  \<^verbatim>\<open>/```(?:typescript|javascript|tsx|jsx)?\n([\s\S]*?)```/\<close>: the first fence followed by
  an optional language name and a line feed, up to the next fence; the result is the
  text between.
\<close>

fun up_to_fence :: "string \<Rightarrow> string option" where
  "up_to_fence [] = None"
| "up_to_fence (c # cs) =
     (if startsWith (c # cs) ''```'' then Some []
      else map_option ((#) c) (up_to_fence cs))"

definition fence_body :: "string \<Rightarrow> string option" where
  "fence_body s =
     (case find (\<lambda>lang. startsWith s (lang @ [CHR 0x0A]))
             [''typescript'', ''javascript'', ''tsx'', ''jsx'', ''''] of
        None \<Rightarrow> None
      | Some lang \<Rightarrow> up_to_fence (drop (length lang + 1) s))"

fun codeMatch :: "string \<Rightarrow> string option" where
  "codeMatch [] = None"
| "codeMatch (c # cs) =
     (case (if startsWith (c # cs) ''```'' then fence_body (drop 3 (c # cs)) else None) of
        Some body \<Rightarrow> Some body
      | None \<Rightarrow> codeMatch cs)"

text \<open>Truthiness of an optional string and of an optional number.\<close>

fun truthy_string :: "string option \<Rightarrow> bool" where
  "truthy_string (Some s) = (s \<noteq> [])"
| "truthy_string None = False"

fun truthy_number :: "nat option \<Rightarrow> bool" where
  "truthy_number (Some n) = (n \<noteq> 0)"
| "truthy_number None = False"

text \<open>
  The body of the \<^verbatim>\<open>try\<close> block up to the result: \<open>None\<close> when it throws (the fetch
  throws, the response is not ok, its JSON cannot be read, or the reply has an error).
\<close>

definition api_result :: "fetch_outcome \<Rightarrow> ClaudeResponse option" where
  "api_result outcome =
     (case outcome of
        Fetch_throws \<Rightarrow> None
      | Http_response ok http_status body \<Rightarrow>
          if \<not> ok then None
          else (case body of
                  None \<Rightarrow> None
                | Some data \<Rightarrow>
                    if truthy_string (data_error data) then None
                    else Some
                      \<lparr>response_content =
                         (case data_content data of Some text \<Rightarrow> text | None \<Rightarrow> ''''),
                       tokens =
                         (if truthy_number (completion_tokens data) then completion_tokens data
                          else total_tokens data),
                       cached = Some False,
                       response_code =
                         (case data_content data of
                            None \<Rightarrow> None
                          | Some text \<Rightarrow> codeMatch text)\<rparr>))"


text \<open>The text of the fall-back for a missing module, line by line.\<close>

fun join_lines :: "string list \<Rightarrow> string" where
  "join_lines [] = []"
| "join_lines [l] = l"
| "join_lines (l # m # ls) = l @ CHR 0x0A # join_lines (m # ls)"

definition module_not_found_help :: string where
  "module_not_found_help =
     join_lines
       [''To fix \"Module not found\" error:'',
        '''',
        ''1. Check if the package is installed:'',
        ''```bash'',
        ''npm list [package-name]'',
        ''```'',
        '''',
        ''2. If not installed, run:'',
        ''```bash'',
        ''npm install [package-name]'',
        ''```'',
        '''',
        ''3. Clear cache and rebuild:'',
        ''```bash'',
        ''rm -rf .next node_modules'',
        ''npm install'',
        ''npm run dev'',
        ''```'']"

definition getFallbackResponse :: "string \<Rightarrow> ClaudeResponse" where
  "getFallbackResponse query =
     (let lowerQuery = toLowerCase query in
      if string_includes lowerQuery ''module not found'' \<or> string_includes lowerQuery ''cannot find module''
      then \<lparr>response_content = module_not_found_help, tokens = None,
            cached = Some True, response_code = None\<rparr>
      else \<lparr>response_content =
              ''I apologize, but I encountered an issue processing your request. Please try again or rephrase your question.'',
            tokens = None, cached = Some False, response_code = None\<rparr>)"

text \<open>
  \<^verbatim>\<open>sendMessage\<close> waits for \<^verbatim>\<open>checkCache\<close>, wherever that waits, and for the network.
  What the network answers to the call (\<open>outcome\<close>) and the time at which the answer is
  cached (\<open>now\<close>) are kept with the suspended call.
\<close>

datatype sendMessage_wait =
    Await_checkCache string "ClaudeMessage list" fetch_outcome int checkCache_wait
  | Await_fetch string "ClaudeMessage list" fetch_outcome int

text \<open>
  What \<^verbatim>\<open>sendMessage\<close> does with the progress of the \<^verbatim>\<open>checkCache\<close> it awaits: this
  is before the \<^verbatim>\<open>try\<close> block, so an exception of \<^verbatim>\<open>checkCache\<close> rejects the promise
  of \<^verbatim>\<open>sendMessage\<close>; a cached response is returned; with \<^verbatim>\<open>null\<close> the request is
  sent.
\<close>

fun sendMessage_checked ::
  "string \<Rightarrow> ClaudeMessage list \<Rightarrow> fetch_outcome \<Rightarrow> int
     \<Rightarrow> (checkCache_wait, ClaudeResponse option) progress \<times> ClaudeAPI
     \<Rightarrow> (sendMessage_wait, ClaudeResponse) progress \<times> ClaudeAPI" where
  "sendMessage_checked cacheKey messages outcome now (Suspended w, st) =
     (Suspended (Await_checkCache cacheKey messages outcome now w), st)"
| "sendMessage_checked cacheKey messages outcome now (Thrown e, st) = (Thrown e, st)"
| "sendMessage_checked cacheKey messages outcome now (Returned (Some cachedResponse), st) =
     (Returned cachedResponse, st)"
| "sendMessage_checked cacheKey messages outcome now (Returned None, st) =
     (Suspended (Await_fetch cacheKey messages outcome now), st)"

text \<open>
  \<^verbatim>\<open>sendMessage\<close> up to its first \<^verbatim>\<open>await\<close>. The key and the last message are
  computed before the \<^verbatim>\<open>try\<close> block: an exception there rejects the promise.
\<close>

definition sendMessage_begin ::
  "'c stringify \<Rightarrow> int \<Rightarrow> ClaudeMessage list \<Rightarrow> 'c option \<Rightarrow> fetch_outcome \<Rightarrow> ClaudeAPI
     \<Rightarrow> (sendMessage_wait, ClaudeResponse) progress \<times> ClaudeAPI" where
  "sendMessage_begin stringify now messages context outcome st =
     (case generateCacheKey stringify messages context of
        None \<Rightarrow> (Thrown TypeError, st)
      | Some cacheKey \<Rightarrow>
          (if messages = [] then (Thrown TypeError, st)
           else sendMessage_checked cacheKey messages outcome now
                  (checkCache_begin stringify (content (last messages)) context st)))"

text \<open>
  \<^verbatim>\<open>sendMessage\<close> from one \<^verbatim>\<open>await\<close> to the next, or to its end. After the network
  the method reads and writes the state in \<^verbatim>\<open>cacheResponse\<close> only. An exception inside
  the \<^verbatim>\<open>try\<close> block, that of \<^verbatim>\<open>cacheResponse\<close> too, is caught and answered by the
  fall-back response.
\<close>

fun sendMessage_resume ::
  "sendMessage_wait \<Rightarrow> ClaudeAPI \<Rightarrow> (sendMessage_wait, ClaudeResponse) progress \<times> ClaudeAPI" where
  "sendMessage_resume (Await_checkCache cacheKey messages outcome now w) st =
     sendMessage_checked cacheKey messages outcome now (checkCache_resume w st)"
| "sendMessage_resume (Await_fetch cacheKey messages outcome now) st =
     (case api_result outcome of
        None \<Rightarrow> (Returned (getFallbackResponse (content (last messages))), st)
      | Some result \<Rightarrow>
          (case cacheResponse cacheKey result now st of
             (Inl e, st1) \<Rightarrow> (Returned (getFallbackResponse (content (last messages))), st1)
           | (Inr u, st1) \<Rightarrow> (Returned result, st1)))"

text \<open>A call of \<^verbatim>\<open>sendMessage\<close> that no other call overlaps.\<close>

fun sendMessage_awaits_left :: "sendMessage_wait \<Rightarrow> nat" where
  "sendMessage_awaits_left (Await_checkCache cacheKey messages outcome now w) = awaits_left w + 1"
| "sendMessage_awaits_left (Await_fetch cacheKey messages outcome now) = 1"

function sendMessage_settle ::
  "(sendMessage_wait, ClaudeResponse) progress \<times> ClaudeAPI \<Rightarrow> (js_error + ClaudeResponse) \<times> ClaudeAPI" where
  "sendMessage_settle (Suspended w, st) = sendMessage_settle (sendMessage_resume w st)"
| "sendMessage_settle (Returned r, st) = (Inr r, st)"
| "sendMessage_settle (Thrown e, st) = (Inl e, st)"
  by pat_completeness auto
termination
proof (relation "measure (\<lambda>(p, st). case p of Suspended w \<Rightarrow> sendMessage_awaits_left w | _ \<Rightarrow> 0)")
  show "wf (measure (\<lambda>(p, st). case p of Suspended w \<Rightarrow> sendMessage_awaits_left w | _ \<Rightarrow> 0))"
    by simp
next
  fix w :: sendMessage_wait and st :: ClaudeAPI
  show "(sendMessage_resume w st, Suspended w, st)
          \<in> measure (\<lambda>(p, st). case p of Suspended w \<Rightarrow> sendMessage_awaits_left w | _ \<Rightarrow> 0)"
  proof (cases w)
    case (Await_checkCache cacheKey messages outcome now cw)
    obtain p st1 where r: "checkCache_resume cw st = (p, st1)" by (cases "checkCache_resume cw st")
    have "case p of Suspended w' \<Rightarrow> awaits_left w' < awaits_left cw | _ \<Rightarrow> True"
      using r
      by (cases "(cw, st)" rule: checkCache_resume.cases)
        (auto simp: Let_def split: prod.splits progress.splits)
    moreover have "0 < awaits_left cw" by (cases cw) auto
    ultimately show ?thesis
      using Await_checkCache r
      by (cases "(cacheKey, messages, outcome, now, (p, st1))" rule: sendMessage_checked.cases) auto
  next
    case (Await_fetch cacheKey messages outcome now)
    then show ?thesis by (auto split: option.splits prod.splits sum.splits)
  qed
qed

definition sendMessage ::
  "'c stringify \<Rightarrow> int \<Rightarrow> ClaudeMessage list \<Rightarrow> 'c option \<Rightarrow> fetch_outcome \<Rightarrow> ClaudeAPI
     \<Rightarrow> (js_error + ClaudeResponse) \<times> ClaudeAPI" where
  "sendMessage stringify now messages context outcome st =
     sendMessage_settle (sendMessage_begin stringify now messages context outcome st)"

subsection \<open>Statistics\<close>

text \<open>
  \<^verbatim>\<open>getCacheStats\<close>: the hit rate is \<^verbatim>\<open>Math.round((cacheHits / totalRequests) * 100)\<close>
  and the savings \<^verbatim>\<open>cacheHits * 0.002\<close>, in doubles.
\<close>

record CacheStats =
  hitRate :: int
  stats_totalRequests :: nat
  stats_cacheHits :: nat
  cacheMisses :: int
  memoryCacheSize :: nat
  estimatedSavings :: rat

definition getCacheStats :: "ClaudeAPI \<Rightarrow> CacheStats" where
  "getCacheStats st =
     \<lparr>hitRate =
        (if totalRequests st > 0
         then Math_round (js_times (js_divide (of_nat (cacheHits st)) (of_nat (totalRequests st))) 100)
         else 0),
      stats_totalRequests = totalRequests st,
      stats_cacheHits = cacheHits st,
      cacheMisses = int (totalRequests st) - int (cacheHits st),
      memoryCacheSize = length (memoryCache st),
      estimatedSavings = js_times (of_nat (cacheHits st)) (to_double (2 / 1000))\<rparr>"

text \<open>
  \<^verbatim>\<open>clearCache\<close> has no \<^verbatim>\<open>await\<close>. The map is cleared before the transaction is
  started, and the counters are reset after.
\<close>

definition clearCache :: "ClaudeAPI \<Rightarrow> (js_error + unit) \<times> ClaudeAPI" where
  "clearCache st =
     (let st1 = st\<lparr>memoryCache := []\<rparr> in
      case persistentCache st1 of
        None \<Rightarrow> (Inr (), st1\<lparr>cacheHits := 0, totalRequests := 0\<rparr>)
      | Some db \<Rightarrow>
          if connection_closed st1 then (Inl InvalidStateError, st1)
          else (Inr (), st1\<lparr>persistentCache := Some [], cacheHits := 0, totalRequests := 0\<rparr>))"

subsection \<open>Calls on the object\<close>

text \<open>
  The calls on a \<^verbatim>\<open>ClaudeAPI\<close> object. In \<open>api_run\<close> no two calls overlap: each one
  has settled before the next one starts, as when the caller awaits each call.
\<close>

datatype 'c api_call =
    Call_checkCache string "'c option"
  | Call_sendMessage "ClaudeMessage list" "'c option" fetch_outcome int
  | Call_getCacheStats
  | Call_clearCache
  | Run_loadCacheToMemory

fun api_step :: "'c stringify \<Rightarrow> ClaudeAPI \<Rightarrow> 'c api_call \<Rightarrow> ClaudeAPI" where
  "api_step stringify st (Call_checkCache query context) = snd (checkCache stringify query context st)"
| "api_step stringify st (Call_sendMessage messages context outcome now) =
     snd (sendMessage stringify now messages context outcome st)"
| "api_step stringify st Call_getCacheStats = st"
| "api_step stringify st Call_clearCache = snd (clearCache st)"
| "api_step stringify st Run_loadCacheToMemory = loadCacheToMemory st"

definition api_run :: "'c stringify \<Rightarrow> (string \<times> CacheEntry) list option \<Rightarrow> 'c api_call list \<Rightarrow> ClaudeAPI" where
  "api_run stringify db calls = foldl (api_step stringify) (new_ClaudeAPI db) calls"

text \<open>
  Calls that overlap. An event is the start of a call, which runs up to its first
  \<^verbatim>\<open>await\<close>; the resumption of a suspended call, which runs up to its next
  \<^verbatim>\<open>await\<close>; or the closing of the database connection. The suspended calls are kept
  in the order of their start, and \<open>Resumes i\<close> resumes the one at position \<open>i\<close>. Any
  order of resumption can be written down here; the event loop of a browser resumes a
  call that waits for a request on the database or for the network when the answer has
  come, which can be after any number of other calls.
\<close>

datatype task = CheckCache_task checkCache_wait | SendMessage_task sendMessage_wait

datatype 'c event = Begins "'c api_call" | Resumes nat | Connection_closes

fun suspended_task :: "('w \<Rightarrow> task) \<Rightarrow> ('w, 'a) progress \<Rightarrow> task option" where
  "suspended_task of_wait (Suspended w) = Some (of_wait w)"
| "suspended_task of_wait (Returned r) = None"
| "suspended_task of_wait (Thrown e) = None"

fun resume_task :: "task \<Rightarrow> ClaudeAPI \<Rightarrow> task option \<times> ClaudeAPI" where
  "resume_task (CheckCache_task w) st =
     (case checkCache_resume w st of (p, st1) \<Rightarrow> (suspended_task CheckCache_task p, st1))"
| "resume_task (SendMessage_task w) st =
     (case sendMessage_resume w st of (p, st1) \<Rightarrow> (suspended_task SendMessage_task p, st1))"

fun api_event :: "'c stringify \<Rightarrow> ClaudeAPI \<times> task list \<Rightarrow> 'c event \<Rightarrow> ClaudeAPI \<times> task list" where
  "api_event stringify (st, tasks) (Begins (Call_checkCache query context)) =
     (case checkCache_begin stringify query context st of
        (p, st1) \<Rightarrow> (st1, tasks @ (case suspended_task CheckCache_task p of Some t \<Rightarrow> [t] | None \<Rightarrow> [])))"
| "api_event stringify (st, tasks) (Begins (Call_sendMessage messages context outcome now)) =
     (case sendMessage_begin stringify now messages context outcome st of
        (p, st1) \<Rightarrow> (st1, tasks @ (case suspended_task SendMessage_task p of Some t \<Rightarrow> [t] | None \<Rightarrow> [])))"
| "api_event stringify (st, tasks) (Begins Call_getCacheStats) = (st, tasks)"
| "api_event stringify (st, tasks) (Begins Call_clearCache) = (snd (clearCache st), tasks)"
| "api_event stringify (st, tasks) (Begins Run_loadCacheToMemory) = (loadCacheToMemory st, tasks)"
| "api_event stringify (st, tasks) (Resumes i) =
     (if i < length tasks
      then (case resume_task (tasks ! i) st of
              (Some t, st1) \<Rightarrow> (st1, tasks[i := t])
            | (None, st1) \<Rightarrow> (st1, take i tasks @ drop (Suc i) tasks))
      else (st, tasks))"
| "api_event stringify (st, tasks) Connection_closes = (st\<lparr>connection_closed := True\<rparr>, tasks)"

definition api_events ::
  "'c stringify \<Rightarrow> (string \<times> CacheEntry) list option \<Rightarrow> 'c event list \<Rightarrow> ClaudeAPI \<times> task list" where
  "api_events stringify db events = foldl (api_event stringify) (new_ClaudeAPI db, []) events"

subsection \<open>A serialiser for the examples\<close>

text \<open>
  \<^verbatim>\<open>JSON.stringify({ messages, context })\<close> for a context whose values are strings (the
  chat panel passes \<^verbatim>\<open>code\<close> and \<^verbatim>\<open>rules\<close>), or no context: an instance of the
  parameter \<open>stringify\<close>.
\<close>

definition json_escape_char :: "char \<Rightarrow> string" where
  "json_escape_char c =
     (if c = CHR 0x22 then [CHR 0x5C, CHR 0x22]
      else if c = CHR 0x5C then [CHR 0x5C, CHR 0x5C]
      else if c = CHR 0x08 then [CHR 0x5C, CHR ''b'']
      else if c = CHR 0x0C then [CHR 0x5C, CHR ''f'']
      else if c = CHR 0x0A then [CHR 0x5C, CHR ''n'']
      else if c = CHR 0x0D then [CHR 0x5C, CHR ''r'']
      else if c = CHR 0x09 then [CHR 0x5C, CHR ''t'']
      else if (of_char c :: nat) < 32
        then [CHR 0x5C, CHR ''u'', CHR ''0'', CHR ''0'',
              digit_char (of_char c div 16), digit_char (of_char c mod 16)]
      else [c])"

definition json_string :: "string \<Rightarrow> string" where
  "json_string s = [CHR 0x22] @ concat (map json_escape_char s) @ [CHR 0x22]"

fun join_commas :: "string list \<Rightarrow> string" where
  "join_commas [] = []"
| "join_commas [x] = x"
| "join_commas (x # y # ys) = x @ '','' @ join_commas (y # ys)"

fun role_name :: "role \<Rightarrow> string" where
  "role_name User = ''user''"
| "role_name Assistant = ''assistant''"
| "role_name System = ''system''"

definition json_message :: "ClaudeMessage \<Rightarrow> string" where
  "json_message m =
     ''{'' @ json_string ''role'' @ '':'' @ json_string (role_name (role m)) @ '',''
       @ json_string ''content'' @ '':'' @ json_string (content m) @ ''}''"

definition JSON_stringify_request :: "(string \<times> string) list stringify" where
  "JSON_stringify_request messages context =
     Some (''{'' @ json_string ''messages'' @ '':['' @ join_commas (map json_message messages) @ '']''
           @ (case context of
                None \<Rightarrow> []
              | Some entries \<Rightarrow>
                  '','' @ json_string ''context'' @ '':{''
                    @ join_commas (map (\<lambda>(k, v). json_string k @ '':'' @ json_string v) entries)
                    @ ''}'')
           @ ''}'')"

text \<open>
  The failures that the claim about \<^verbatim>\<open>sendMessage\<close> names: the fetch throws, the
  response is not ok, or the reply carries an error, which the source tests with
  \<^verbatim>\<open>if (data.error)\<close>: an error that is truthy.
\<close>

fun request_fails :: "fetch_outcome \<Rightarrow> bool" where
  "request_fails Fetch_throws = True"
| "request_fails (Http_response ok http_status None) = (\<not> ok)"
| "request_fails (Http_response ok http_status (Some reply)) =
     (\<not> ok \<or> truthy_string (data_error reply))"

text \<open>A reply of the API, and the state after one answered question on an error.\<close>

definition example_reply :: api_data where
  "example_reply =
     \<lparr>data_content = Some ''Check the stack trace.'', data_error = None,
      completion_tokens = Some 12, total_tokens = Some 40\<rparr>"

definition one_cached_answer :: ClaudeAPI where
  "one_cached_answer =
     snd (sendMessage JSON_stringify_request 1
            [\<lparr>role = User, content = ''fix the error in my code''\<rparr>] None
            (Http_response True 200 (Some example_reply)) (new_ClaudeAPI None))"

text \<open>The keys that \<^verbatim>\<open>generateCacheKey\<close> can return.\<close>

definition generated_key :: "string \<Rightarrow> bool" where
  "generated_key k = (\<exists>serialised. k = ''claude_'' @ Number_toString 36 (hash_content serialised))"

text \<open>
  A question put to \<^verbatim>\<open>sendMessage\<close> as the only message, and the questions
  \<^verbatim>\<open>what is 0\<close>, ..., \<^verbatim>\<open>what is 100\<close>: one more than the memory cache should hold.
\<close>

definition ask :: "'c option \<Rightarrow> fetch_outcome \<Rightarrow> int \<Rightarrow> string \<Rightarrow> 'c api_call" where
  "ask ctx outcome now q = Call_sendMessage [\<lparr>role = User, content = q\<rparr>] ctx outcome now"

definition question :: "nat \<Rightarrow> string" where
  "question n = ''what is '' @ to_digits 10 n"

definition hundred_one_questions :: "string list" where
  "hundred_one_questions = map question [0..<101]"

definition answered :: fetch_outcome where
  "answered = Http_response True 200 (Some example_reply)"

text \<open>
  The database that earlier sessions have left: the answer to
  \<^verbatim>\<open>fix the error in my code\<close>, not hit since, and twenty answers that were hit
  once, which are the ones that the constructor loads into memory. Then five events on
  a new object: the constructor loads the cache, \<^verbatim>\<open>checkCache\<close> is called with the
  question and waits for the database, \<^verbatim>\<open>clearCache\<close> is called, and the call of
  \<^verbatim>\<open>checkCache\<close> is resumed twice, to its end.
\<close>

definition earlier_answer :: "string \<Rightarrow> nat \<Rightarrow> string \<times> CacheEntry" where
  "earlier_answer k h =
     (k, \<lparr>key = k,
          response = \<lparr>response_content = ''Check the stack trace.'', tokens = Some 12,
                      cached = Some False, response_code = None\<rparr>,
          entry_timestamp = 0, hits = h\<rparr>)"

definition earlier_sessions :: "(string \<times> CacheEntry) list" where
  "earlier_sessions =
     earlier_answer ''claude_-76n5n0'' 0
       # map (\<lambda>n. earlier_answer (''claude_'' @ Number_toString 36 (int n)) 1) [1..<21]"

definition clearCache_overlaps_checkCache :: "(string \<times> string) list event list" where
  "clearCache_overlaps_checkCache =
     [Begins Run_loadCacheToMemory,
      Begins (Call_checkCache ''fix the error in my code'' None),
      Begins Call_clearCache,
      Resumes 0,
      Resumes 0]"

text \<open>The hash of the request that \<^verbatim>\<open>checkCache\<close> makes of a question.\<close>

definition question_hash :: "nat \<Rightarrow> int" where
  "question_hash n =
     hash_content (the (JSON_stringify_request [\<lparr>role = User, content = question n\<rparr>] None))"


section \<open>Offline queue (public/service-worker.js)\<close>

definition MAX_QUEUE_SIZE :: nat where
  "MAX_QUEUE_SIZE = 10"

text \<open>The request descriptor; its field \<^verbatim>\<open>method\<close> is \<open>http_method\<close> here.\<close>

record RequestData =
  url :: string
  http_method :: string
  headers :: "(string \<times> string) list"
  body :: string
  queued_at :: string

record QueueItem =
  item_id :: string
  data :: RequestData

text \<open>The object store \<^verbatim>\<open>offline_queue\<close> (key path \<^verbatim>\<open>id\<close>): its records in key order.\<close>

type_synonym offline_store = "QueueItem list"

text \<open>
  \<^verbatim>\<open>openDB\<close> (lines 206 to 220 of the source) resolves to \<^verbatim>\<open>request.result\<close>, the
  \<^verbatim>\<open>IDBDatabase\<close> of the platform, so \<^verbatim>\<open>store.getAll()\<close> is
  \<^verbatim>\<open>IDBObjectStore.getAll\<close>: it returns an \<^verbatim>\<open>IDBRequest\<close>, whose result arrives
  in a later event that the source does not listen to. An \<^verbatim>\<open>IDBRequest\<close> is not a
  promise, and \<^verbatim>\<open>await\<close> of a value that is not a promise is that value. The values
  that the variable \<^verbatim>\<open>queue\<close> can hold are therefore modelled with two shapes, an array
  and a request object, and \<open>offline_getAll\<close> returns the second.
\<close>

datatype js_queue = Array "QueueItem list" | IDBRequest

definition offline_getAll :: "offline_store \<Rightarrow> js_queue" where
  "offline_getAll store = IDBRequest"

definition await_value :: "js_queue \<Rightarrow> js_queue" where
  "await_value v = v"

text \<open>\<^verbatim>\<open>queue.length\<close>: a request object has no such property (\<open>None\<close> is \<^verbatim>\<open>undefined\<close>).\<close>

fun js_length :: "js_queue \<Rightarrow> nat option" where
  "js_length (Array xs) = Some (length xs)"
| "js_length IDBRequest = None"

text \<open>\<^verbatim>\<open>x >= n\<close> and \<^verbatim>\<open>x === 0\<close>: both are false of \<^verbatim>\<open>undefined\<close>.\<close>

fun js_ge :: "nat option \<Rightarrow> nat \<Rightarrow> bool" where
  "js_ge (Some m) n = (m \<ge> n)"
| "js_ge None n = False"

fun js_is_zero :: "nat option \<Rightarrow> bool" where
  "js_is_zero (Some m) = (m = 0)"
| "js_is_zero None = False"

text \<open>\<^verbatim>\<open>queue[0].id\<close>: reading \<^verbatim>\<open>id\<close> of \<^verbatim>\<open>undefined\<close> throws.\<close>

fun first_item_id :: "js_queue \<Rightarrow> js_error + string" where
  "first_item_id (Array (x # xs)) = Inr (item_id x)"
| "first_item_id (Array []) = Inl TypeError"
| "first_item_id IDBRequest = Inl TypeError"

text \<open>\<^verbatim>\<open>for (const item of queue)\<close>: a request object is not iterable.\<close>

fun js_iterate :: "js_queue \<Rightarrow> js_error + QueueItem list" where
  "js_iterate (Array xs) = Inr xs"
| "js_iterate IDBRequest = Inl TypeError"

definition offline_delete :: "string \<Rightarrow> offline_store \<Rightarrow> offline_store" where
  "offline_delete i store = filter (\<lambda>x. item_id x \<noteq> i) store"

text \<open>
  \<^verbatim>\<open>addToOfflineQueue\<close>; \<open>now\<close> is \<^verbatim>\<open>Date.now()\<close>. An exception is caught and logged,
  and the store stays as it was. An \<^verbatim>\<open>add\<close> under a key that is present fails in its
  request, which aborts the transaction: the store stays as it was before the function
  ran.
\<close>

definition addToOfflineQueue :: "int \<Rightarrow> RequestData \<Rightarrow> offline_store \<Rightarrow> offline_store" where
  "addToOfflineQueue now requestData store =
     (let queue = await_value (offline_getAll store) in
      case (if js_ge (js_length queue) MAX_QUEUE_SIZE
            then (case first_item_id queue of
                    Inl e \<Rightarrow> Inl e
                  | Inr oldest \<Rightarrow> Inr (offline_delete oldest store))
            else Inr store) of
        Inl e \<Rightarrow> store
      | Inr store1 \<Rightarrow>
          (let item = \<lparr>item_id = Number_toString 10 now, data = requestData\<rparr> in
           if item_id item \<in> set (map item_id store1) then store
           else insort_key item_id item store1))"

text \<open>
  What a replay of one item meets: \<^verbatim>\<open>fetch\<close> throws, or returns a response with its
  \<^verbatim>\<open>ok\<close> flag.
\<close>

datatype replay_outcome = Replay_throws | Replay_response bool

text \<open>
  The loop of \<^verbatim>\<open>processOfflineQueue\<close> over an array of items: the items whose replay
  was attempted, in order, and the store.
\<close>

fun replay_loop ::
  "(QueueItem \<Rightarrow> replay_outcome) \<Rightarrow> QueueItem list \<Rightarrow> QueueItem list \<times> offline_store
     \<Rightarrow> QueueItem list \<times> offline_store" where
  "replay_loop fetch [] (attempted, store) = (attempted, store)"
| "replay_loop fetch (item # rest) (attempted, store) =
     replay_loop fetch rest
       (attempted @ [item],
        (case fetch item of
           Replay_throws \<Rightarrow> store
         | Replay_response ok \<Rightarrow> if ok then offline_delete (item_id item) store else store))"

text \<open>
  \<^verbatim>\<open>processOfflineQueue\<close>: the exception of the \<^verbatim>\<open>for\<close> statement is caught by the
  outer \<^verbatim>\<open>catch\<close>, which logs it.
\<close>

definition processOfflineQueue ::
  "(QueueItem \<Rightarrow> replay_outcome) \<Rightarrow> offline_store \<Rightarrow> QueueItem list \<times> offline_store" where
  "processOfflineQueue fetch store =
     (let queue = await_value (offline_getAll store) in
      if js_is_zero (js_length queue) then ([], store)
      else (case js_iterate queue of
              Inl e \<Rightarrow> ([], store)
            | Inr items \<Rightarrow> replay_loop fetch items ([], store)))"

text \<open>A run of \<^verbatim>\<open>addToOfflineQueue\<close> calls, and the request queued at time \<open>t\<close>.\<close>

definition enqueue_all :: "(int \<times> RequestData) list \<Rightarrow> offline_store \<Rightarrow> offline_store" where
  "enqueue_all calls store = foldl (\<lambda>s (now, requestData). addToOfflineQueue now requestData s) store calls"

definition request_at :: "int \<Rightarrow> RequestData" where
  "request_at t =
     \<lparr>url = ''/api/claude'', http_method = ''POST'',
      headers = [(''content-type'', ''application/json'')],
      body = ''message '' @ Number_toString 10 t,
      queued_at = Number_toString 10 t\<rparr>"

text \<open>Eleven requests that fail one millisecond apart, and a queue of two items.\<close>

definition eleven_requests :: "(int \<times> RequestData) list" where
  "eleven_requests =
     map (\<lambda>t. (t, request_at t))
       [1700000000001, 1700000000002, 1700000000003, 1700000000004, 1700000000005,
        1700000000006, 1700000000007, 1700000000008, 1700000000009, 1700000000010,
        1700000000011]"

definition two_items :: offline_store where
  "two_items =
     [\<lparr>item_id = ''1700000000001'', data = request_at 1700000000001\<rparr>,
      \<lparr>item_id = ''1700000000002'', data = request_at 1700000000002\<rparr>]"

section \<open>Snapshot manager: lemmas\<close>

subsection \<open>Maps as entry lists\<close>

lemma foldl_Map_set_append:
  "distinct (map fst (acc @ es)) \<Longrightarrow> foldl (\<lambda>m (k, v). Map_set k v m) acc es = acc @ es"
proof (induction es arbitrary: acc)
  case Nil
  then show ?case by simp
next
  case (Cons e es)
  obtain k v where e: "e = (k, v)" by (cases e)
  have notin: "k \<notin> fst ` set acc" using Cons.prems e by auto
  have upd: "AList.update k v acc = acc @ [(k, v)]"
    using notin by (induction acc) auto
  have "distinct (map fst ((acc @ [(k, v)]) @ es))" using Cons.prems e by auto
  from Cons.IH [OF this] show ?case by (simp add: e Map_set_def upd)
qed

lemma new_Map_id: "distinct (map fst es) \<Longrightarrow> new_Map es = es"
  using foldl_Map_set_append [of "[]" es] by (simp add: new_Map_def)

lemma new_Map_distinct: "distinct (map fst (new_Map es))"
proof -
  have "distinct (map fst acc) \<Longrightarrow> distinct (map fst (foldl (\<lambda>m (k, v). Map_set k v m) acc es))"
    for acc :: "('a \<times> 'b) list"
    by (induction es arbitrary: acc) (auto simp: Map_set_def AList.distinct_update split: prod.splits)
  from this [of "[]"] show ?thesis by (simp add: new_Map_def)
qed

lemma new_Map_idem: "new_Map (new_Map es) = new_Map es"
  by (rule new_Map_id) (rule new_Map_distinct)

subsection \<open>Sorting and inserting\<close>

lemma hd_sort_key_least:
  assumes "xs \<noteq> []"
  shows "hd (sort_key f xs) \<in> set xs \<and> (\<forall>x\<in>set xs. f (hd (sort_key f xs)) \<le> f x)"
proof -
  let ?ys = "sort_key f xs"
  have "length ?ys = length xs" by simp
  with assms have "?ys \<noteq> []" by (metis length_0_conv)
  then obtain y ys' where ys: "?ys = y # ys'" by (cases ?ys) auto
  have "sorted (map f ?ys)" by (rule sorted_sort_key)
  with ys have "\<forall>x\<in>set ys'. f y \<le> f x" by simp
  moreover have "set ?ys = set xs" by simp
  ultimately show ?thesis using ys
    by (metis list.sel(1) list.set_intros(1) order_refl set_ConsD)
qed

lemma last_sorted_greatest:
  "xs \<noteq> [] \<Longrightarrow> sorted (map f xs) \<Longrightarrow> x \<in> set xs \<Longrightarrow> f x \<le> f (last xs)"
  by (induction xs) (auto split: if_splits)

lemma length_filter_insort_key:
  "length (filter P (insort_key f x xs)) = length (filter P xs) + (if P x then 1 else 0)"
  by (induction xs) auto

lemma distinct_map_insort_key:
  "distinct (map f xs) \<Longrightarrow> f x \<notin> f ` set xs \<Longrightarrow> distinct (map f (insort_key f x xs))"
  by (induction xs) (auto simp: set_insort_key)

lemma length_filter_filter_le: "length (filter P (filter Q xs)) \<le> length (filter P xs)"
  by (induction xs) auto

lemma length_filter_butlast_le: "length (filter P (butlast xs)) \<le> length (filter P xs)"
  by (induction xs) auto

subsection \<open>Reading the store\<close>

lemmas record_simps = SnapshotDraft.defs Snapshot.defs

lemma mset_getAllSnapshots:
  "mset (getAllSnapshots db) = mset (map (\<lambda>s. s\<lparr>files := new_Map (files s)\<rparr>) db)"
  by (simp add: getAllSnapshots_def sort_newest_first_def store_getAll_def)

lemma length_getAllSnapshots: "length (getAllSnapshots db) = length db"
  by (simp add: getAllSnapshots_def sort_newest_first_def store_getAll_def)

lemma sorted_getAllSnapshots: "sorted (map (\<lambda>s. - timestamp s) (getAllSnapshots db))"
  by (simp add: getAllSnapshots_def sort_newest_first_def)

lemma length_filter_getAllSnapshots:
  assumes "\<And>s f. P (s\<lparr>files := f\<rparr>) = P s"
  shows "length (filter P (getAllSnapshots db)) = length (filter P db)"
proof -
  have "mset (filter P (getAllSnapshots db))
          = mset (filter P (map (\<lambda>s. s\<lparr>files := new_Map (files s)\<rparr>) db))"
    by (simp add: mset_getAllSnapshots)
  then have "length (filter P (getAllSnapshots db))
          = length (filter P (map (\<lambda>s. s\<lparr>files := new_Map (files s)\<rparr>) db))"
    by (rule mset_eq_length)
  also have "\<dots> = length (filter P db)"
    by (simp add: filter_map comp_def assms)
  finally show ?thesis .
qed

lemma length_nonMilestones_getAllSnapshots:
  "length (nonMilestones (getAllSnapshots db)) = length (nonMilestones db)"
  unfolding nonMilestones_def by (rule length_filter_getAllSnapshots) simp

lemma length_autoSaves_getAllSnapshots:
  "length (autoSaves (getAllSnapshots db)) = length (autoSaves db)"
  unfolding autoSaves_def by (rule length_filter_getAllSnapshots) simp

subsection \<open>Eviction\<close>

lemma foldl_deleteSnapshot:
  "foldl (\<lambda>d snapshot. deleteSnapshot (snap_id snapshot) d) db xs
     = filter (\<lambda>s. snap_id s \<notin> snap_id ` set xs) db"
proof (induction xs arbitrary: db)
  case Nil
  then show ?case by simp
next
  case (Cons x xs)
  have "foldl (\<lambda>d snapshot. deleteSnapshot (snap_id snapshot) d) (deleteSnapshot (snap_id x) db) xs
      = filter (\<lambda>s. snap_id s \<notin> snap_id ` set xs) (deleteSnapshot (snap_id x) db)"
    by (rule Cons.IH)
  then show ?case
    by (auto simp: deleteSnapshot_def store_delete_def intro!: filter_cong)
qed

text \<open>
  Deleting all but the first \<open>cap\<close> of the newest-first snapshots that satisfy \<open>P\<close>, in a
  store with unique keys: exactly \<open>cap\<close> of them stay, and the others are not touched.
\<close>

lemma evict_count:
  assumes inv: "\<And>s f. P (s\<lparr>files := f\<rparr>) = P s"
    and dist: "distinct (map snap_id db)"
    and over: "cap < length (filter P db)"
  shows "length (filter P (foldl (\<lambda>d snapshot. deleteSnapshot (snap_id snapshot) d) db
             (drop cap (filter P (getAllSnapshots db))))) = cap"
    and "filter (\<lambda>s. \<not> P s) (foldl (\<lambda>d snapshot. deleteSnapshot (snap_id snapshot) d) db
             (drop cap (filter P (getAllSnapshots db)))) = filter (\<lambda>s. \<not> P s) db"
    and "distinct (map snap_id (foldl (\<lambda>d snapshot. deleteSnapshot (snap_id snapshot) d) db
             (drop cap (filter P (getAllSnapshots db)))))"
proof -
  define db' where "db' = foldl (\<lambda>d snapshot. deleteSnapshot (snap_id snapshot) d) db
             (drop cap (filter P (getAllSnapshots db)))"
  define J where "J = map snap_id (filter P (getAllSnapshots db))"
  define I where "I = map snap_id (filter P db)"
  define S where "S = set (drop cap J)"
  have db': "db' = filter (\<lambda>s. snap_id s \<notin> S) db"
    by (simp add: db'_def foldl_deleteSnapshot S_def J_def drop_map)
  have "mset (filter P (getAllSnapshots db))
          = mset (filter P (map (\<lambda>s. s\<lparr>files := new_Map (files s)\<rparr>) db))"
    by (simp add: mset_getAllSnapshots)
  then have "image_mset snap_id (mset (filter P (getAllSnapshots db)))
          = image_mset snap_id (mset (filter P (map (\<lambda>s. s\<lparr>files := new_Map (files s)\<rparr>) db)))"
    by (rule arg_cong)
  then have "mset J = mset (map snap_id (filter P (map (\<lambda>s. s\<lparr>files := new_Map (files s)\<rparr>) db)))"
    by (simp only: J_def mset_map)
  also have "\<dots> = mset I"
    by (simp add: I_def filter_map comp_def inv)
  finally have IJ: "mset J = mset I" .
  have dI: "distinct I" unfolding I_def using dist by (simp add: distinct_map_filter)
  then have dJ: "distinct J" using IJ mset_eq_imp_distinct_iff by blast
  have lenJ: "length J = length I" using IJ by (rule mset_eq_length)
  have "length I = length (filter P db)" by (simp add: I_def)
  with over lenJ have capJ: "cap < length J" by simp
  have setJ: "set J = set I" using IJ by (rule mset_eq_setD)
  have split: "set J - S = set (take cap J)"
  proof -
    have "set (take cap J) \<inter> set (drop cap J) = {}"
      using dJ by (metis append_take_drop_id distinct_append)
    moreover have "set J = set (take cap J) \<union> set (drop cap J)"
      by (metis append_take_drop_id set_append)
    ultimately show ?thesis unfolding S_def by blast
  qed
  have "map snap_id (filter P db') = filter (\<lambda>i. i \<notin> S) I"
    by (simp add: db' I_def filter_map comp_def conj_commute)
  then have "length (filter P db') = length (filter (\<lambda>i. i \<notin> S) I)"
    by (metis length_map)
  also have "\<dots> = card (set (filter (\<lambda>i. i \<notin> S) I))"
    using dI distinct_card [of "filter (\<lambda>i. i \<notin> S) I"] by (simp del: set_filter)
  also have "set (filter (\<lambda>i. i \<notin> S) I) = set J - S" using setJ by auto
  also have "card (set J - S) = length (take cap J)"
    unfolding split using dJ by (simp add: distinct_card)
  also have "\<dots> = cap" using capJ by simp
  finally show "length (filter P db') = cap" .
  have "S \<subseteq> set I" using setJ set_drop_subset [of cap J] unfolding S_def by simp
  have SP: "P s" if s: "s \<in> set db" "snap_id s \<in> S" for s
  proof -
    from s \<open>S \<subseteq> set I\<close> obtain s' where s': "s' \<in> set db" "P s'" "snap_id s' = snap_id s"
      unfolding I_def by auto
    with dist s have "s' = s" by (auto simp: distinct_map dest: inj_onD)
    with s' show "P s" by simp
  qed
  show "filter (\<lambda>s. \<not> P s) db' = filter (\<lambda>s. \<not> P s) db"
    unfolding db' filter_filter by (rule filter_cong) (use SP in auto)
  show "distinct (map snap_id db')" unfolding db' using dist by (simp add: distinct_map_filter)
qed

lemma cleanupOldSnapshots_filter: "\<exists>Q. cleanupOldSnapshots db = filter Q db"
proof (cases "maxSnapshots < length (filter (\<lambda>s. \<not> truthy (isMilestone s)) (getAllSnapshots db))")
  case True
  then show ?thesis unfolding cleanupOldSnapshots_def Let_def foldl_deleteSnapshot by auto
next
  case False
  then have "cleanupOldSnapshots db = filter (\<lambda>_. True) db" by (simp add: cleanupOldSnapshots_def)
  then show ?thesis by blast
qed

lemma cleanupAutoSaves_filter: "\<exists>Q. cleanupAutoSaves db = filter Q db"
proof (cases "maxAutoSaves < length (filter (\<lambda>s. truthy (autoSave s)) (getAllSnapshots db))")
  case True
  then show ?thesis unfolding cleanupAutoSaves_def Let_def foldl_deleteSnapshot by auto
next
  case False
  then have "cleanupAutoSaves db = filter (\<lambda>_. True) db" by (simp add: cleanupAutoSaves_def)
  then show ?thesis by blast
qed

lemma cleanupOldSnapshots_count:
  assumes "distinct (map snap_id db)"
  shows "length (nonMilestones (cleanupOldSnapshots db)) = min (length (nonMilestones db)) maxSnapshots"
    and "filter (\<lambda>s. truthy (isMilestone s)) (cleanupOldSnapshots db)
           = filter (\<lambda>s. truthy (isMilestone s)) db"
    and "distinct (map snap_id (cleanupOldSnapshots db))"
proof -
  let ?P = "\<lambda>s::Snapshot. \<not> truthy (isMilestone s)"
  have len: "length (filter ?P (getAllSnapshots db)) = length (filter ?P db)"
    by (rule length_filter_getAllSnapshots) simp
  show "length (nonMilestones (cleanupOldSnapshots db)) = min (length (nonMilestones db)) maxSnapshots"
    using evict_count(1) [of ?P db maxSnapshots] assms len
    by (simp add: cleanupOldSnapshots_def nonMilestones_def)
  show "filter (\<lambda>s. truthy (isMilestone s)) (cleanupOldSnapshots db)
          = filter (\<lambda>s. truthy (isMilestone s)) db"
    using evict_count(2) [of ?P db maxSnapshots] assms len
    by (simp add: cleanupOldSnapshots_def)
  show "distinct (map snap_id (cleanupOldSnapshots db))"
    using evict_count(3) [of ?P db maxSnapshots] assms len
    by (simp add: cleanupOldSnapshots_def)
qed

lemma cleanupAutoSaves_count:
  assumes "distinct (map snap_id db)"
  shows "length (autoSaves (cleanupAutoSaves db)) = min (length (autoSaves db)) maxAutoSaves"
    and "distinct (map snap_id (cleanupAutoSaves db))"
proof -
  let ?P = "\<lambda>s::Snapshot. truthy (autoSave s)"
  have len: "length (filter ?P (getAllSnapshots db)) = length (filter ?P db)"
    by (rule length_filter_getAllSnapshots) simp
  show "length (autoSaves (cleanupAutoSaves db)) = min (length (autoSaves db)) maxAutoSaves"
    using evict_count(1) [of ?P db maxAutoSaves] assms len
    by (simp add: cleanupAutoSaves_def autoSaves_def)
  show "distinct (map snap_id (cleanupAutoSaves db))"
    using evict_count(3) [of ?P db maxAutoSaves] assms len
    by (simp add: cleanupAutoSaves_def)
qed

lemma cleanup_monotone:
  "length (nonMilestones (cleanupAutoSaves db)) \<le> length (nonMilestones db)"
  "length (autoSaves (cleanupOldSnapshots db)) \<le> length (autoSaves db)"
proof -
  obtain Q where "cleanupAutoSaves db = filter Q db" using cleanupAutoSaves_filter by blast
  then show "length (nonMilestones (cleanupAutoSaves db)) \<le> length (nonMilestones db)"
    unfolding nonMilestones_def by (simp only: length_filter_filter_le)
  obtain Q' where "cleanupOldSnapshots db = filter Q' db" using cleanupOldSnapshots_filter by blast
  then show "length (autoSaves (cleanupOldSnapshots db)) \<le> length (autoSaves db)"
    unfolding autoSaves_def by (simp only: length_filter_filter_le)
qed

lemma cleanup_noop:
  "length (nonMilestones db) \<le> maxSnapshots \<Longrightarrow> cleanupOldSnapshots db = db"
  "length (autoSaves db) \<le> maxAutoSaves \<Longrightarrow> cleanupAutoSaves db = db"
proof -
  have "length (filter (\<lambda>s. \<not> truthy (isMilestone s)) (getAllSnapshots db)) = length (nonMilestones db)"
    unfolding nonMilestones_def by (rule length_filter_getAllSnapshots) simp
  then show "length (nonMilestones db) \<le> maxSnapshots \<Longrightarrow> cleanupOldSnapshots db = db"
    by (simp add: cleanupOldSnapshots_def)
  have "length (filter (\<lambda>s. truthy (autoSave s)) (getAllSnapshots db)) = length (autoSaves db)"
    unfolding autoSaves_def by (rule length_filter_getAllSnapshots) simp
  then show "length (autoSaves db) \<le> maxAutoSaves \<Longrightarrow> cleanupAutoSaves db = db"
    by (simp add: cleanupAutoSaves_def)
qed

subsection \<open>Saving\<close>

lemma newSnapshot_simps:
  "snap_id (newSnapshot nid d) = ''snap_'' @ nid"
  "SnapshotDraft.truncate (newSnapshot nid d) = d"
  "isMilestone (newSnapshot nid d) = isMilestone d"
  "autoSave (newSnapshot nid d) = autoSave d"
  "label (newSnapshot nid d) = label d"
  "status (newSnapshot nid d) = status d"
  "code (newSnapshot nid d) = code d"
  "files (newSnapshot nid d) = files d"
  "timestamp (newSnapshot nid d) = timestamp d"
  by (simp_all add: newSnapshot_def record_simps)

lemma store_add_cases:
  "store_add s db = Inl e \<Longrightarrow> e = ConstraintError \<and> snap_id s \<in> snap_id ` set db"
  "store_add s db = Inr db' \<Longrightarrow> db' = insort_key snap_id s db \<and> snap_id s \<notin> snap_id ` set db"
  by (auto simp: store_add_def split: if_splits)

text \<open>What holds after every call, whatever the store held before: the caps plus one.\<close>

lemma saveSnapshot_caps_plus_one:
  assumes "distinct (map snap_id db)"
    and au: "length (autoSaves db) \<le> maxAutoSaves + 1"
  shows "length (nonMilestones (snd (saveSnapshot nid snapshot db))) \<le> maxSnapshots + 1"
    and "length (autoSaves (snd (saveSnapshot nid snapshot db))) \<le> maxAutoSaves + 1"
    and "distinct (map snap_id (snd (saveSnapshot nid snapshot db)))"
proof -
  define db' where "db' = snd (saveSnapshot nid snapshot db)"
  define new where "new = newSnapshot nid snapshot"
  define db1 where "db1 = (if truthy (autoSave new) then cleanupAutoSaves db else db)"
  define db2 where "db2 = cleanupOldSnapshots db1"
  define st where "st = new\<lparr>files := Map_entries (files new)\<rparr>"
  have d1: "distinct (map snap_id db1)"
    using assms(1) cleanupAutoSaves_count(2) by (simp add: db1_def)
  have nm2: "length (nonMilestones db2) \<le> maxSnapshots"
    using cleanupOldSnapshots_count(1) [OF d1] by (simp add: db2_def)
  have d2: "distinct (map snap_id db2)"
    using cleanupOldSnapshots_count(3) [OF d1] by (simp add: db2_def)
  have au1: "length (autoSaves db1) \<le> (if truthy (autoSave new) then maxAutoSaves else maxAutoSaves + 1)"
    using cleanupAutoSaves_count(1) [OF assms(1)] au by (simp add: db1_def)
  have au2: "length (autoSaves db2) \<le> (if truthy (autoSave new) then maxAutoSaves else maxAutoSaves + 1)"
    using au1 cleanup_monotone(2) [of db1] unfolding db2_def by (meson le_trans)
  have db': "db' = (case store_add st db2 of Inr db3 \<Rightarrow> db3 | Inl e \<Rightarrow> db2)"
    by (simp add: db'_def saveSnapshot_def Let_def new_def db1_def db2_def st_def split: sum.split)
  have stau: "truthy (autoSave st) = truthy (autoSave new)" by (simp add: st_def)
  show "length (nonMilestones (snd (saveSnapshot nid snapshot db))) \<le> maxSnapshots + 1"
    using nm2 unfolding db'_def [symmetric] db'
    by (auto simp: nonMilestones_def length_filter_insort_key dest!: store_add_cases split: sum.split)
  show "length (autoSaves (snd (saveSnapshot nid snapshot db))) \<le> maxAutoSaves + 1"
    using au2 stau unfolding db'_def [symmetric] db'
    by (auto simp: autoSaves_def length_filter_insort_key dest!: store_add_cases split: sum.split if_splits)
  show "distinct (map snap_id (snd (saveSnapshot nid snapshot db)))"
    using d2 unfolding db'_def [symmetric] db'
    by (auto simp: distinct_map_insort_key dest!: store_add_cases split: sum.split)
qed

lemma save_sequence_snoc:
  "save_sequence (calls @ [(nid, d)]) db = snd (saveSnapshot nid d (save_sequence calls db))"
  by (simp add: save_sequence_def)

text \<open>The invariant of the store over every run of calls from the empty store.\<close>

lemma save_sequence_caps_plus_one:
  "length (nonMilestones (save_sequence calls [])) \<le> maxSnapshots + 1
   \<and> length (autoSaves (save_sequence calls [])) \<le> maxAutoSaves + 1
   \<and> distinct (map snap_id (save_sequence calls []))"
proof (induction calls rule: rev_induct)
  case Nil
  show ?case by (simp add: save_sequence_def nonMilestones_def autoSaves_def)
next
  case (snoc c calls)
  obtain nid d where c: "c = (nid, d)" by (cases c)
  from snoc saveSnapshot_caps_plus_one [of "save_sequence calls []" nid d]
  show ?case unfolding c save_sequence_snoc by blast
qed

lemma saveSnapshot_no_eviction:
  assumes fresh: "''snap_'' @ nid \<notin> snap_id ` set db"
    and nm: "length (nonMilestones db) \<le> maxSnapshots"
    and au: "truthy (autoSave snapshot) \<Longrightarrow> length (autoSaves db) \<le> maxAutoSaves"
  shows "saveSnapshot nid snapshot db =
           (Inr (newSnapshot nid snapshot), insort_key snap_id (newSnapshot nid snapshot) db)"
proof -
  define new where "new = newSnapshot nid snapshot"
  have a: "truthy (autoSave new) = truthy (autoSave snapshot)" and i: "snap_id new = ''snap_'' @ nid"
    by (simp_all add: new_def newSnapshot_simps)
  have db1: "(if truthy (autoSave new) then cleanupAutoSaves db else db) = db"
    using au a cleanup_noop(2) by simp
  have db2: "cleanupOldSnapshots db = db" using nm by (rule cleanup_noop(1))
  have st: "new\<lparr>files := Map_entries (files new)\<rparr> = new" by (simp add: Map_entries_def)
  have "store_add new db = Inr (insort_key snap_id new db)"
    using fresh i by (simp add: store_add_def)
  then show ?thesis
    unfolding saveSnapshot_def new_def [symmetric] Let_def db1 db2 st by simp
qed

text \<open>A run of calls in which no call finds a cap exceeded keeps every snapshot.\<close>

lemma save_sequence_kept:
  assumes "distinct (map fst calls)"
    and "length (filter (\<lambda>c. \<not> truthy (isMilestone (snd c))) (butlast calls)) \<le> maxSnapshots"
    and "length (filter (\<lambda>c. truthy (autoSave (snd c))) (butlast calls)) \<le> maxAutoSaves"
  shows "mset (save_sequence calls []) = mset (map (\<lambda>(nid, d). newSnapshot nid d) calls)"
  using assms
proof (induction calls rule: rev_induct)
  case Nil
  show ?case by (simp add: save_sequence_def)
next
  case (snoc c calls)
  obtain nid d where c: "c = (nid, d)" by (cases c)
  let ?db = "save_sequence calls []"
  have nmc: "length (filter (\<lambda>c. \<not> truthy (isMilestone (snd c))) calls) \<le> maxSnapshots"
    and auc: "length (filter (\<lambda>c. truthy (autoSave (snd c))) calls) \<le> maxAutoSaves"
    using snoc.prems(2,3) by simp_all
  have IH: "mset ?db = mset (map (\<lambda>(nid, d). newSnapshot nid d) calls)"
  proof (rule snoc.IH)
    show "distinct (map fst calls)" using snoc.prems(1) by simp
    show "length (filter (\<lambda>c. \<not> truthy (isMilestone (snd c))) (butlast calls)) \<le> maxSnapshots"
      using nmc length_filter_butlast_le order_trans by blast
    show "length (filter (\<lambda>c. truthy (autoSave (snd c))) (butlast calls)) \<le> maxAutoSaves"
      using auc length_filter_butlast_le order_trans by blast
  qed
  have cnt: "length (filter P ?db) = length (filter (\<lambda>c. P (newSnapshot (fst c) (snd c))) calls)"
    for P :: "Snapshot \<Rightarrow> bool"
  proof -
    have "mset (filter P ?db) = mset (filter P (map (\<lambda>(nid, d). newSnapshot nid d) calls))"
      by (simp only: mset_filter IH)
    then have "length (filter P ?db)
            = length (filter P (map (\<lambda>(nid, d). newSnapshot nid d) calls))"
      by (rule mset_eq_length)
    then show ?thesis by (simp add: filter_map comp_def case_prod_unfold)
  qed
  have nm: "length (nonMilestones ?db) \<le> maxSnapshots"
    using nmc cnt [of "\<lambda>s. \<not> truthy (isMilestone s)"]
    by (simp add: nonMilestones_def newSnapshot_simps)
  have au: "length (autoSaves ?db) \<le> maxAutoSaves"
    using auc cnt [of "\<lambda>s. truthy (autoSave s)"]
    by (simp add: autoSaves_def newSnapshot_simps)
  have "set ?db = set (map (\<lambda>(nid, d). newSnapshot nid d) calls)"
    using IH by (rule mset_eq_setD)
  then have "snap_id ` set ?db = snap_id ` (\<lambda>c. newSnapshot (fst c) (snd c)) ` set calls"
    by (simp add: case_prod_unfold)
  also have "\<dots> = (\<lambda>c. ''snap_'' @ fst c) ` set calls"
    by (simp add: image_image newSnapshot_simps)
  finally have ids: "snap_id ` set ?db = (\<lambda>c. ''snap_'' @ fst c) ` set calls" .
  have "nid \<notin> fst ` set calls" using snoc.prems(1) c by auto
  with ids have fresh: "''snap_'' @ nid \<notin> snap_id ` set ?db" by auto
  show ?case
    unfolding c save_sequence_snoc saveSnapshot_no_eviction [OF fresh nm au]
    using IH by simp
qed


subsection \<open>The identifiers of the examples\<close>

lemma of_char_digit_char: "d < 10 \<Longrightarrow> of_char (digit_char d) = (48 + d :: nat)"
proof -
  assume "d < 10"
  then consider "d = 0" | "d = 1" | "d = 2" | "d = 3" | "d = 4" | "d = 5" | "d = 6" | "d = 7"
    | "d = 8" | "d = 9" by atomize_elim presburger
  then show ?thesis by cases (simp_all add: digit_char_def)
qed

lemma digits_value_snoc: "digits_value (ds @ [c]) = 10 * digits_value ds + (of_char c - 48)"
  by (simp add: digits_value_def)

lemma digits_value_to_digits: "digits_value (to_digits 10 n) = n"
proof (induction n rule: less_induct)
  case (less n)
  show ?case
  proof (cases "n < 10")
    case True
    then show ?thesis
      by (subst to_digits.simps) (simp add: digits_value_def of_char_digit_char)
  next
    case False
    then have "digits_value (to_digits 10 (n div 10)) = n div 10" by (intro less.IH) simp
    moreover have "to_digits 10 n = to_digits 10 (n div 10) @ [digit_char (n mod 10)]"
      using False by (subst to_digits.simps) simp
    ultimately show ?thesis
      by (simp add: digits_value_snoc of_char_digit_char)
  qed
qed

lemma digits_value_zeros: "digits_value (replicate m CHR ''0'' @ ds) = digits_value ds"
proof -
  have "foldl (\<lambda>a c. 10 * a + (of_char c - 48)) (0::nat) (replicate m CHR ''0'') = 0"
    by (induction m) simp_all
  then show ?thesis by (simp add: digits_value_def)
qed

lemma digits_value_nid_of: "digits_value (nid_of k) = k"
  by (simp add: nid_of_def Let_def digits_value_zeros digits_value_to_digits)

lemma inj_nid_of: "inj nid_of"
  by (rule inj_on_inverseI [where g = digits_value]) (rule digits_value_nid_of)

lemma distinct_nid_of: "distinct (map nid_of [i..<j])"
proof -
  have "inj_on nid_of (set [i..<j])" by (rule inj_on_subset [OF inj_nid_of]) simp
  then show ?thesis by (simp add: distinct_map)
qed

lemma distinct_import_ids: "distinct (map import_ids [i..<j])"
proof -
  have "inj import_ids"
  proof (rule injI)
    fix x y assume "import_ids x = import_ids y"
    then have "60 + x = 60 + y" unfolding import_ids_def by (rule injD [OF inj_nid_of])
    then show "x = y" by simp
  qed
  then have "inj_on import_ids (set [i..<j])" by (rule inj_on_subset) simp
  then show ?thesis by (simp add: distinct_map)
qed


subsection \<open>Importing\<close>

lemma fresh_generated_id:
  assumes "distinct (map gen [0..<k + Suc m])"
    and "snap_id ` set acc \<subseteq> (\<lambda>j. ''snap_'' @ gen j) ` {..<k}"
  shows "''snap_'' @ gen k \<notin> snap_id ` set acc"
proof
  assume "''snap_'' @ gen k \<in> snap_id ` set acc"
  with assms(2) obtain j where j: "j < k" "''snap_'' @ gen k = ''snap_'' @ gen j" by blast
  have inj: "inj_on gen (set [0..<k + Suc m])"
    using iffD1 [OF distinct_map assms(1)] by (rule conjunct2)
  have mem: "k \<in> set [0..<k + Suc m]" "j \<in> set [0..<k + Suc m]" using j(1) by auto
  have "gen k = gen j" using j(2) by simp
  then have "k = j" using mem by (rule inj_onD [OF inj])
  with j(1) show False by simp
qed

text \<open>
  An import in which no call finds a cap exceeded stores every entry: what matters is
  what the store holds before the last entry is added.
\<close>

lemma import_loop_no_eviction:
  assumes "distinct (map gen [0..<k + length xs])"
    and "snap_id ` set acc \<subseteq> (\<lambda>j. ''snap_'' @ gen j) ` {..<k}"
    and "distinct (map snap_id acc)"
    and "length (nonMilestones acc) + length (nonMilestones (butlast xs)) \<le> maxSnapshots"
    and "length (autoSaves acc) + length (autoSaves (butlast xs)) \<le> maxAutoSaves"
  shows "\<exists>db'. import_loop gen k xs n acc = (Inr (n + length xs), db')
           \<and> mset (map SnapshotDraft.truncate db')
               = mset (map SnapshotDraft.truncate acc)
                 + mset (map (\<lambda>x. SnapshotDraft.truncate (x\<lparr>files := new_Map (files x)\<rparr>)) xs)
           \<and> snap_id ` set db' \<subseteq> (\<lambda>j. ''snap_'' @ gen j) ` {..<k + length xs}
           \<and> distinct (map snap_id db')"
  using assms
proof (induction xs arbitrary: k n acc)
  case Nil
  then show ?case by simp
next
  case (Cons x xs)
  define d where "d = SnapshotDraft.truncate (x\<lparr>files := new_Map (files x)\<rparr>)"
  define new where "new = newSnapshot (gen k) d"
  have fresh: "''snap_'' @ gen k \<notin> snap_id ` set acc"
    using Cons.prems(1,2) fresh_generated_id [of gen k "length xs" acc] by simp
  have flags: "truthy (isMilestone new) = truthy (isMilestone x)"
    "truthy (autoSave new) = truthy (autoSave x)"
    "truthy (autoSave d) = truthy (autoSave x)" "snap_id new = ''snap_'' @ gen k"
    "SnapshotDraft.truncate new = d"
    by (simp_all add: new_def d_def newSnapshot_simps) (simp_all add: record_simps)
  have nm: "length (nonMilestones acc) \<le> maxSnapshots" using Cons.prems(4) by linarith
  have au: "length (autoSaves acc) \<le> maxAutoSaves" using Cons.prems(5) by linarith
  have save: "saveSnapshot (gen k) d acc = (Inr new, insort_key snap_id new acc)"
    unfolding new_def by (rule saveSnapshot_no_eviction [OF fresh nm au])
  let ?acc = "insort_key snap_id new acc"
  have p1: "distinct (map gen [0..<Suc k + length xs])" using Cons.prems(1) by simp
  have p2: "snap_id ` set ?acc \<subseteq> (\<lambda>j. ''snap_'' @ gen j) ` {..<Suc k}"
    using Cons.prems(2) flags(4) by (auto simp: set_insort_key lessThan_Suc)
  have p3: "distinct (map snap_id ?acc)"
    using Cons.prems(3) fresh flags(4) by (simp add: distinct_map_insort_key)
  show ?case
  proof (cases "xs = []")
    case True
    have "import_loop gen k (x # xs) n acc = (Inr (n + length (x # xs)), ?acc)"
      using save True by (simp add: d_def)
    moreover have "mset (map SnapshotDraft.truncate ?acc)
       = mset (map SnapshotDraft.truncate acc)
         + mset (map (\<lambda>x. SnapshotDraft.truncate (x\<lparr>files := new_Map (files x)\<rparr>)) (x # xs))"
      using flags(5) True by (simp add: d_def)
    moreover have "snap_id ` set ?acc \<subseteq> (\<lambda>j. ''snap_'' @ gen j) ` {..<k + length (x # xs)}"
      using p2 True by simp
    ultimately show ?thesis using p3 by blast
  next
    case False
    have p4: "length (nonMilestones ?acc) + length (nonMilestones (butlast xs)) \<le> maxSnapshots"
      using Cons.prems(4) flags(1) False
      by (auto simp: nonMilestones_def length_filter_insort_key split: if_splits)
    have p5: "length (autoSaves ?acc) + length (autoSaves (butlast xs)) \<le> maxAutoSaves"
      using Cons.prems(5) flags(2) False
      by (auto simp: autoSaves_def length_filter_insort_key split: if_splits)
    from Cons.IH [OF p1 p2 p3 p4 p5, of "n + 1"]
    obtain db' where db': "import_loop gen (Suc k) xs (n + 1) ?acc = (Inr (n + 1 + length xs), db')"
      "mset (map SnapshotDraft.truncate db')
         = mset (map SnapshotDraft.truncate ?acc)
           + mset (map (\<lambda>x. SnapshotDraft.truncate (x\<lparr>files := new_Map (files x)\<rparr>)) xs)"
      "snap_id ` set db' \<subseteq> (\<lambda>j. ''snap_'' @ gen j) ` {..<Suc k + length xs}"
      "distinct (map snap_id db')"
      by blast
    have "import_loop gen k (x # xs) n acc = (Inr (n + length (x # xs)), db')"
      using save db'(1) by (simp add: d_def)
    moreover have "mset (map SnapshotDraft.truncate db')
         = mset (map SnapshotDraft.truncate acc)
           + mset (map (\<lambda>x. SnapshotDraft.truncate (x\<lparr>files := new_Map (files x)\<rparr>)) (x # xs))"
      using db'(2) flags(5) by (simp add: d_def)
    moreover have "snap_id ` set db' \<subseteq> (\<lambda>j. ''snap_'' @ gen j) ` {..<k + length (x # xs)}"
      using db'(3) by simp
    ultimately show ?thesis using db'(4) by blast
  qed
qed

lemma import_loop_append:
  "import_loop gen k (ys @ zs) n acc =
     (case import_loop gen k ys n acc of
        (Inl e, db') \<Rightarrow> (Inl e, db')
      | (Inr n', db') \<Rightarrow> import_loop gen (k + length ys) zs n' db')"
proof (induction ys arbitrary: k n acc)
  case Nil
  show ?case by simp
next
  case (Cons y ys)
  show ?case
    by (cases "saveSnapshot (gen k)
                 (SnapshotDraft.truncate (y\<lparr>files := new_Map (files y)\<rparr>)) acc")
       (auto simp: Cons.IH split: sum.split prod.split)
qed

text \<open>What the views of two stores show, when their records agree up to the identifiers.\<close>

lemma view_of_truncate:
  "mset (map (\<lambda>s. (label s, status s, code s, files s)) (getAllSnapshots db))
     = image_mset (\<lambda>d. (label d, status d, code d, new_Map (files d)))
         (mset (map SnapshotDraft.truncate db))"
proof -
  have "mset (map (\<lambda>s. (label s, status s, code s, files s)) (getAllSnapshots db))
      = image_mset (\<lambda>s. (label s, status s, code s, files s)) (mset (getAllSnapshots db))"
    by simp
  also have "\<dots> = image_mset (\<lambda>s. (label s, status s, code s, files s))
        (mset (map (\<lambda>s. s\<lparr>files := new_Map (files s)\<rparr>) db))"
    by (simp only: mset_getAllSnapshots)
  also have "\<dots> = image_mset (\<lambda>d. (label d, status d, code d, new_Map (files d)))
         (mset (map SnapshotDraft.truncate db))"
    by (simp add: image_mset.compositionality comp_def record_simps)
  finally show ?thesis .
qed


section \<open>Snapshot manager: the claims\<close>

lemma length_filter_of_mset:
  assumes "mset xs = mset (map f ys)"
  shows "length (filter P xs) = length (filter (\<lambda>y. P (f y)) ys)"
proof -
  have "mset (filter P xs) = mset (filter P (map f ys))"
    by (simp only: mset_filter assms)
  then have "length (filter P xs) = length (filter P (map f ys))"
    by (rule mset_eq_length)
  then show ?thesis by (simp add: filter_map comp_def)
qed

lemma autoSave_calls_kept:
  "mset (save_sequence (autoSave_calls 11) [])
     = mset (map (\<lambda>(nid, d). newSnapshot nid d) (autoSave_calls 11))"
proof (rule save_sequence_kept)
  show "distinct (map fst (autoSave_calls 11))"
    using distinct_nid_of [of 1 12] by (simp add: autoSave_calls_def comp_def)
  have l: "length (butlast (autoSave_calls 11)) = 10" by (simp add: autoSave_calls_def)
  show "length (filter (\<lambda>c. \<not> truthy (isMilestone (snd c))) (butlast (autoSave_calls 11))) \<le> maxSnapshots"
    using length_filter_le [of "\<lambda>c. \<not> truthy (isMilestone (snd c))" "butlast (autoSave_calls 11)"] l
    by (simp add: maxSnapshots_def)
  show "length (filter (\<lambda>c. truthy (autoSave (snd c))) (butlast (autoSave_calls 11))) \<le> maxAutoSaves"
    using length_filter_le [of "\<lambda>c. truthy (autoSave (snd c))" "butlast (autoSave_calls 11)"] l
    by (simp add: maxAutoSaves_def)
qed

lemma manual_calls_kept:
  "mset (save_sequence (manual_calls 51) [])
     = mset (map (\<lambda>(nid, d). newSnapshot nid d) (manual_calls 51))"
proof (rule save_sequence_kept)
  show "distinct (map fst (manual_calls 51))"
    using distinct_nid_of [of 1 52] by (simp add: manual_calls_def comp_def)
  have l: "length (butlast (manual_calls 51)) = 50" by (simp add: manual_calls_def)
  show "length (filter (\<lambda>c. \<not> truthy (isMilestone (snd c))) (butlast (manual_calls 51))) \<le> maxSnapshots"
    using length_filter_le [of "\<lambda>c. \<not> truthy (isMilestone (snd c))" "butlast (manual_calls 51)"] l
    by (simp add: maxSnapshots_def)
  have "filter (\<lambda>c. truthy (autoSave (snd c))) (manual_calls 51) = []"
    by (simp add: manual_calls_def draft_at_def filter_map comp_def)
  then have "length (filter (\<lambda>c. truthy (autoSave (snd c))) (butlast (manual_calls 51))) = 0"
    using length_filter_butlast_le [of "\<lambda>c. truthy (autoSave (snd c))" "manual_calls 51"] by simp
  then show "length (filter (\<lambda>c. truthy (autoSave (snd c))) (butlast (manual_calls 51))) \<le> maxAutoSaves"
    by simp
qed

text \<open>
  C1 (the snapshot cap invariant) does not hold of the code. \<^verbatim>\<open>saveSnapshot\<close> cleans up
  before it adds, and cleans up only when a count is strictly above its cap, so a call
  that finds a count at its cap leaves one more: from the empty store, eleven automatic
  saves leave eleven auto-saves (the cap is 10), and fifty-one manual saves leave
  fifty-one non-milestone snapshots (the cap is 50).
\<close>

theorem saveSnapshot_exceeds_caps:
  "length (autoSaves (save_sequence (autoSave_calls 11) [])) = maxAutoSaves + 1
   \<and> length (nonMilestones (save_sequence (manual_calls 51) [])) = maxSnapshots + 1"
proof
  have "length (autoSaves (save_sequence (autoSave_calls 11) []))
      = length (filter (\<lambda>c. truthy (autoSave (case c of (nid, d) \<Rightarrow> newSnapshot nid d))) (autoSave_calls 11))"
    unfolding autoSaves_def by (rule length_filter_of_mset [OF autoSave_calls_kept])
  also have "\<dots> = 11"
    by (simp add: autoSave_calls_def draft_at_def newSnapshot_simps filter_map comp_def)
  finally show "length (autoSaves (save_sequence (autoSave_calls 11) [])) = maxAutoSaves + 1"
    by (simp add: maxAutoSaves_def)
  have "length (nonMilestones (save_sequence (manual_calls 51) []))
      = length (filter (\<lambda>c. \<not> truthy (isMilestone (case c of (nid, d) \<Rightarrow> newSnapshot nid d))) (manual_calls 51))"
    unfolding nonMilestones_def by (rule length_filter_of_mset [OF manual_calls_kept])
  also have "\<dots> = 51"
    by (simp add: manual_calls_def draft_at_def newSnapshot_simps filter_map comp_def)
  finally show "length (nonMilestones (save_sequence (manual_calls 51) [])) = maxSnapshots + 1"
    by (simp add: maxSnapshots_def)
qed

text \<open>
  What the restore point holds, for every store and every target: the code and the files
  of the snapshot that is being restored.
\<close>

lemma restoreSnapshot_restore_point:
  assumes "getSnapshot i db = Some snapshot"
    and "restoreSnapshot i nid now db = (Inr r, db')"
  shows "r = snapshot
         \<and> (\<exists>b\<in>set db'. snap_id b = ''snap_'' @ nid
               \<and> label b = ''Before restore to: '' @ label snapshot
               \<and> status b = Testing
               \<and> code b = code snapshot
               \<and> files b = files snapshot)"
proof -
  define d where "d = \<lparr>timestamp = now,
                   label = ''Before restore to: '' @ label snapshot,
                   status = Testing,
                   code = code snapshot,
                   files = files snapshot,
                   compressedSize = compressedSize snapshot,
                   originalSize = originalSize snapshot,
                   isMilestone = None,
                   autoSave = None,
                   description = Some ''Automatic backup before restore'',
                   error = None,
                   dependencies = None\<rparr>"
  obtain res db2 where sv: "saveSnapshot nid d db = (res, db2)" by (cases "saveSnapshot nid d db")
  have "restoreSnapshot i nid now db =
          (case saveSnapshot nid d db of
             (Inl e, db') \<Rightarrow> (Inl e, db')
           | (Inr _, db') \<Rightarrow> (Inr snapshot, db'))"
    unfolding restoreSnapshot_def d_def assms(1) by simp
  with assms(2) sv have r: "r = snapshot" and db2: "db2 = db'" and ok: "\<exists>x. res = Inr x"
    by (auto split: sum.splits)
  define b where "b = (newSnapshot nid d)\<lparr>files := Map_entries (files (newSnapshot nid d))\<rparr>"
  from sv ok have "store_add b (cleanupOldSnapshots db) = Inr db2"
    by (auto simp: saveSnapshot_def Let_def b_def newSnapshot_simps d_def split: sum.splits)
  then have "b \<in> set db2" by (auto dest!: store_add_cases(2) simp: set_insort_key)
  moreover have "snap_id b = ''snap_'' @ nid" "label b = ''Before restore to: '' @ label snapshot"
    "status b = Testing" "code b = code snapshot" "files b = files snapshot"
    by (simp_all add: b_def newSnapshot_simps Map_entries_def d_def)
  ultimately show ?thesis using r db2 by blast
qed

text \<open>
  C2 (the restore point holds the live editor state) does not hold of the code.
  \<^verbatim>\<open>restoreSnapshot\<close> takes the identifier only and builds the restore point from the
  snapshot it reads: here the store holds one snapshot with the code \<open>code 1\<close>, and the
  restore point written before it is returned holds \<open>code 1\<close> again, under the status
  \<open>testing\<close> and a label that names the target, whatever the editor holds.
\<close>

theorem restoreSnapshot_backup_copies_target:
  "map (\<lambda>s. (snap_id s, label s, status s, code s, files s))
     (snd (restoreSnapshot ''snap_0000000001'' (nid_of 2) 2 one_snapshot))
   = [(''snap_0000000001'', ''v1'', Working, ''code 1'', [(''main.tsx'', ''code 1'')]),
      (''snap_0000000002'', ''Before restore to: v1'', Testing, ''code 1'',
         [(''main.tsx'', ''code 1'')])]"
  by code_simp

text \<open>
  C3: \<^verbatim>\<open>getLastWorkingSnapshot\<close> returns null exactly when no stored snapshot has the
  status \<open>working\<close>; otherwise it returns a stored snapshot (its files read back into a
  map) whose status is \<open>working\<close> and whose timestamp is the greatest among the
  snapshots of that status, so never a more recent snapshot of another status.
\<close>

theorem getLastWorkingSnapshot_latest_working:
  "(case getLastWorkingSnapshot db of
      None \<Rightarrow> (\<forall>s\<in>set db. status s \<noteq> Working)
    | Some r \<Rightarrow>
        status r = Working
        \<and> (\<exists>s\<in>set db. r = s\<lparr>files := new_Map (files s)\<rparr>)
        \<and> (\<forall>s\<in>set db. status s = Working \<longrightarrow> timestamp s \<le> timestamp r))"
proof (cases "index_status_getAll Working db = []")
  case True
  then have "\<forall>s\<in>set db. status s \<noteq> Working"
    by (auto simp: index_status_getAll_def filter_empty_conv)
  with True show ?thesis by (simp add: getLastWorkingSnapshot_def)
next
  case False
  define ws where "ws = index_status_getAll Working db"
  define latest where "latest = hd (sort_newest_first ws)"
  from False have ne: "ws \<noteq> []" by (simp add: ws_def)
  from hd_sort_key_least [OF ne, of "\<lambda>s. - timestamp s"]
  have mem: "latest \<in> set ws" and le: "\<forall>x\<in>set ws. timestamp x \<le> timestamp latest"
    by (simp_all add: latest_def sort_newest_first_def)
  have set_ws: "set ws = {s \<in> set db. status s = Working}"
    by (auto simp: ws_def index_status_getAll_def)
  have res: "getLastWorkingSnapshot db = Some (latest\<lparr>files := new_Map (files latest)\<rparr>)"
    using ne by (simp add: getLastWorkingSnapshot_def ws_def [symmetric] latest_def Let_def)
  show ?thesis
    unfolding res using mem le set_ws by auto
qed

theorem getLastWorkingSnapshot_latest_working_witness:
  "\<exists>r. getLastWorkingSnapshot three_snapshots = Some r
       \<and> status r = Working \<and> timestamp r = 3 \<and> label r = ''v3''"
proof -
  have "map_option (\<lambda>r. (timestamp r, label r)) (getLastWorkingSnapshot three_snapshots)
          = Some (3, ''v3'')"
    by code_simp
  then obtain r where r: "getLastWorkingSnapshot three_snapshots = Some r"
    "timestamp r = 3" "label r = ''v3''" by auto
  from getLastWorkingSnapshot_latest_working [of three_snapshots] r(1)
  have "status r = Working" by simp
  with r show ?thesis by blast
qed


subsection \<open>Export and import\<close>

lemma exported_snapshots:
  "JSON_parse_stringify (exportSnapshots today db) = Parsed (Some (getAllSnapshots db))"
  by (simp add: JSON_parse_stringify_def exportSnapshots_def Map_entries_def)

lemma distinct_map_upt_le:
  assumes "distinct (map gen [0..<n])" and "m \<le> n"
  shows "distinct (map gen [0..<m])"
proof -
  have "map gen [0..<m] = take m (map gen [0..<n])"
    using assms(2) by (simp add: take_map take_upt)
  then show ?thesis using assms(1) by (simp only: distinct_take)
qed

text \<open>
  C8, as amended. The claim as written fails (see the counterexample below): the import
  saves through \<^verbatim>\<open>saveSnapshot\<close>, so the retention caps apply to it. For a store
  within the caps (at most 50 non-milestone snapshots and at most 10 auto-saves), and
  identifiers generated without collision, importing the export into the empty store
  succeeds, reports and stores as many snapshots as the original holds, and the stored
  snapshots have the same labels, statuses, codes and file maps.
\<close>

theorem export_import_round_trip_within_caps:
  assumes ids: "distinct (map nanoid [0..<length db])"
    and nm: "length (nonMilestones db) \<le> maxSnapshots"
    and au: "length (autoSaves db) \<le> maxAutoSaves"
  shows "\<exists>db'. importSnapshots nanoid (JSON_parse_stringify (exportSnapshots today db)) []
                 = (Inr (length db), db')
           \<and> length (getAllSnapshots db') = length (getAllSnapshots db)
           \<and> mset (map (\<lambda>s. (label s, status s, code s, files s)) (getAllSnapshots db'))
               = mset (map (\<lambda>s. (label s, status s, code s, files s)) (getAllSnapshots db))"
proof -
  define xs where "xs = getAllSnapshots db"
  have len: "length xs = length db" by (simp add: xs_def length_getAllSnapshots)
  have p1: "distinct (map nanoid [0..<0 + length xs])" using ids len by simp
  have p4: "length (nonMilestones []) + length (nonMilestones (butlast xs)) \<le> maxSnapshots"
  proof -
    have "length (nonMilestones (butlast xs)) \<le> length (nonMilestones xs)"
      unfolding nonMilestones_def by (rule length_filter_butlast_le)
    also have "\<dots> = length (nonMilestones db)"
      unfolding xs_def by (rule length_nonMilestones_getAllSnapshots)
    finally show ?thesis using nm by (simp add: nonMilestones_def)
  qed
  have p5: "length (autoSaves []) + length (autoSaves (butlast xs)) \<le> maxAutoSaves"
  proof -
    have "length (autoSaves (butlast xs)) \<le> length (autoSaves xs)"
      unfolding autoSaves_def by (rule length_filter_butlast_le)
    also have "\<dots> = length (autoSaves db)"
      unfolding xs_def by (rule length_autoSaves_getAllSnapshots)
    finally show ?thesis using au by (simp add: autoSaves_def)
  qed
  from import_loop_no_eviction [of nanoid 0 xs "[]" 0, OF p1 _ _ p4 p5]
  obtain db' where loop: "import_loop nanoid 0 xs 0 [] = (Inr (length xs), db')"
    and ms: "mset (map SnapshotDraft.truncate db')
               = mset (map (\<lambda>x. SnapshotDraft.truncate (x\<lparr>files := new_Map (files x)\<rparr>)) xs)"
    by auto
  have imp: "importSnapshots nanoid (JSON_parse_stringify (exportSnapshots today db)) []
               = (Inr (length db), db')"
    using loop len by (simp add: exported_snapshots importSnapshots_def xs_def)
  have "length db' = length xs"
  proof -
    have "length (map SnapshotDraft.truncate db')
            = length (map (\<lambda>x. SnapshotDraft.truncate (x\<lparr>files := new_Map (files x)\<rparr>)) xs)"
      using ms by (rule mset_eq_length)
    then show ?thesis by simp
  qed
  then have l: "length (getAllSnapshots db') = length (getAllSnapshots db)"
    using len by (simp add: length_getAllSnapshots)
  have "image_mset (\<lambda>d. (label d, status d, code d, new_Map (files d)))
          (mset (map SnapshotDraft.truncate db'))
        = image_mset (\<lambda>d. (label d, status d, code d, new_Map (files d)))
          (mset (map (\<lambda>x. SnapshotDraft.truncate (x\<lparr>files := new_Map (files x)\<rparr>)) xs))"
    by (simp only: ms)
  also have "\<dots> = image_mset (\<lambda>s. (label s, status s, code s, new_Map (files s))) (mset xs)"
    by (simp add: image_mset.compositionality comp_def record_simps new_Map_idem)
  also have "\<dots> = image_mset (\<lambda>s. (label s, status s, code s, new_Map (files s)))
                      (mset (map (\<lambda>s. s\<lparr>files := new_Map (files s)\<rparr>) db))"
    unfolding xs_def by (simp only: mset_getAllSnapshots)
  also have "\<dots> = image_mset (\<lambda>d. (label d, status d, code d, new_Map (files d)))
                      (mset (map SnapshotDraft.truncate db))"
    by (simp add: image_mset.compositionality comp_def record_simps new_Map_idem)
  finally have "mset (map (\<lambda>s. (label s, status s, code s, files s)) (getAllSnapshots db'))
               = mset (map (\<lambda>s. (label s, status s, code s, files s)) (getAllSnapshots db))"
    by (simp only: view_of_truncate)
  with imp l show ?thesis by blast
qed

theorem export_import_round_trip_within_caps_witness:
  "\<exists>db'. importSnapshots import_ids
            (JSON_parse_stringify (exportSnapshots ''2025-01-01T00:00:00.000Z'' three_snapshots)) []
            = (Inr 3, db')
         \<and> length (getAllSnapshots db') = 3
         \<and> mset (map (\<lambda>s. (label s, status s, code s, files s)) (getAllSnapshots db'))
             = mset (map (\<lambda>s. (label s, status s, code s, files s)) (getAllSnapshots three_snapshots))"
proof -
  have l: "length three_snapshots = 3" by code_simp
  have h1: "distinct (map import_ids [0..<length three_snapshots])" by (rule distinct_import_ids)
  have h2: "length (nonMilestones three_snapshots) \<le> maxSnapshots" by code_simp
  have h3: "length (autoSaves three_snapshots) \<le> maxAutoSaves" by code_simp
  from export_import_round_trip_within_caps [OF h1 h2 h3, of "''2025-01-01T00:00:00.000Z''"]
  show ?thesis by (simp add: l length_getAllSnapshots)
qed


text \<open>
  An import that does lose a snapshot: a store one above the cap on non-milestone
  snapshots, with one milestone older than all of them. The milestone is exported last,
  and its \<^verbatim>\<open>saveSnapshot\<close> finds 51 non-milestone snapshots and evicts the oldest.
\<close>

lemma import_loses_one:
  assumes ids: "distinct (map gen [0..<length db])"
    and len: "length db = maxSnapshots + 2"
    and nm: "length (nonMilestones db) = maxSnapshots + 1"
    and au: "autoSaves db = []"
    and new: "\<And>s. s \<in> set db \<Longrightarrow> \<not> truthy (isMilestone s) \<Longrightarrow> t0 < timestamp s"
    and old: "\<And>s. s \<in> set db \<Longrightarrow> truthy (isMilestone s) \<Longrightarrow> timestamp s \<le> t0"
  shows "\<exists>db'. importSnapshots gen (JSON_parse_stringify (exportSnapshots today db)) []
                  = (Inr (length db), db')
              \<and> length db' = maxSnapshots + 1"
proof -
  define xs where "xs = getAllSnapshots db"
  define m where "m = last xs"
  define ys where "ys = butlast xs"
  have lxs: "length xs = maxSnapshots + 2" using len by (simp add: xs_def length_getAllSnapshots)
  then have ne: "xs \<noteq> []" by auto
  then have xs: "xs = ys @ [m]" by (simp add: ys_def m_def)
  have lys: "length ys = maxSnapshots + 1" using lxs by (simp add: ys_def)
  have nmxs: "length (nonMilestones xs) = maxSnapshots + 1"
    using nm by (simp add: xs_def length_nonMilestones_getAllSnapshots)
  have auxs: "autoSaves xs = []"
    using au length_autoSaves_getAllSnapshots [of db] by (simp add: xs_def)
  have setxs: "set xs = (\<lambda>s. s\<lparr>files := new_Map (files s)\<rparr>) ` set db"
    using mset_eq_setD [OF mset_getAllSnapshots [of db]] by (simp add: xs_def)
  have new': "t0 < timestamp s" if "s \<in> set xs" "\<not> truthy (isMilestone s)" for s
    using that new setxs by auto
  have old': "timestamp s \<le> t0" if "s \<in> set xs" "truthy (isMilestone s)" for s
    using that old setxs by auto
  txt \<open>The snapshot that is exported last is the milestone.\<close>
  have "length (filter (\<lambda>s. truthy (isMilestone s)) xs) + length (nonMilestones xs) = length xs"
    unfolding nonMilestones_def by (rule sum_length_filter_compl)
  with lxs nmxs have "length (filter (\<lambda>s. truthy (isMilestone s)) xs) = 1" by simp
  then have "filter (\<lambda>s. truthy (isMilestone s)) xs \<noteq> []" by auto
  then obtain s0 where s0: "s0 \<in> set xs" "truthy (isMilestone s0)"
    by (auto simp: filter_empty_conv)
  have mm: "truthy (isMilestone m)"
  proof (rule ccontr)
    assume "\<not> truthy (isMilestone m)"
    moreover have "m \<in> set xs" using ne by (simp add: m_def)
    ultimately have "t0 < timestamp m" by (rule new' [rotated])
    moreover have "- timestamp s0 \<le> - timestamp m"
      unfolding m_def
      by (rule last_sorted_greatest [OF ne _ s0(1)]) (simp add: xs_def sorted_getAllSnapshots)
    moreover have "timestamp s0 \<le> t0" using s0 by (rule old')
    ultimately show False by simp
  qed
  have ma: "\<not> truthy (autoSave m)"
  proof
    assume "truthy (autoSave m)"
    then have "m \<in> set (autoSaves xs)" using ne by (simp add: autoSaves_def m_def)
    with auxs show False by simp
  qed
  have nmys: "length (nonMilestones ys) = maxSnapshots + 1"
    using nmxs mm by (simp add: xs nonMilestones_def)
  have auys: "autoSaves ys = []" using auxs by (simp add: xs autoSaves_def)
  txt \<open>The first 51 entries are stored without eviction.\<close>
  have p1: "distinct (map gen [0..<0 + length ys])"
    using distinct_map_upt_le [OF ids, of "length ys"] lys len by simp
  have p4: "length (nonMilestones []) + length (nonMilestones (butlast ys)) \<le> maxSnapshots"
  proof -
    have "length (nonMilestones (butlast ys)) \<le> length (butlast ys)"
      unfolding nonMilestones_def by (rule length_filter_le)
    then have "length (nonMilestones (butlast ys)) \<le> maxSnapshots" using lys by simp
    then show ?thesis by (simp add: nonMilestones_def)
  qed
  have p5: "length (autoSaves []) + length (autoSaves (butlast ys)) \<le> maxAutoSaves"
  proof -
    have "length (autoSaves (butlast ys)) \<le> length (autoSaves ys)"
      unfolding autoSaves_def by (rule length_filter_butlast_le)
    then show ?thesis using auys by (simp add: autoSaves_def)
  qed
  from import_loop_no_eviction [of gen 0 ys "[]" 0, OF p1 _ _ p4 p5]
  obtain db1 where loop1: "import_loop gen 0 ys 0 [] = (Inr (length ys), db1)"
    and ms: "mset (map SnapshotDraft.truncate db1)
               = mset (map (\<lambda>x. SnapshotDraft.truncate (x\<lparr>files := new_Map (files x)\<rparr>)) ys)"
    and ids1: "snap_id ` set db1 \<subseteq> (\<lambda>j. ''snap_'' @ gen j) ` {..<length ys}"
    and d1: "distinct (map snap_id db1)"
    by auto
  have l1: "length db1 = maxSnapshots + 1"
  proof -
    have "length (map SnapshotDraft.truncate db1)
            = length (map (\<lambda>x. SnapshotDraft.truncate (x\<lparr>files := new_Map (files x)\<rparr>)) ys)"
      using ms by (rule mset_eq_length)
    then show ?thesis using lys by simp
  qed
  have nm1: "length (nonMilestones db1) = maxSnapshots + 1"
  proof -
    have "length (nonMilestones db1)
        = length (filter (\<lambda>d. \<not> truthy (isMilestone d)) (map SnapshotDraft.truncate db1))"
      by (simp add: nonMilestones_def filter_map comp_def record_simps)
    also have "\<dots> = length (filter (\<lambda>d. \<not> truthy (isMilestone d))
          (map (\<lambda>x. SnapshotDraft.truncate (x\<lparr>files := new_Map (files x)\<rparr>)) ys))"
    proof (rule mset_eq_length)
      show "mset (filter (\<lambda>d. \<not> truthy (isMilestone d)) (map SnapshotDraft.truncate db1))
          = mset (filter (\<lambda>d. \<not> truthy (isMilestone d))
              (map (\<lambda>x. SnapshotDraft.truncate (x\<lparr>files := new_Map (files x)\<rparr>)) ys))"
        by (simp only: mset_filter ms)
    qed
    also have "\<dots> = length (nonMilestones ys)"
      by (simp add: nonMilestones_def filter_map comp_def record_simps)
    finally show ?thesis using nmys by simp
  qed
  txt \<open>The last entry, the milestone: the clean-up evicts one snapshot, then it is added.\<close>
  define d where "d = SnapshotDraft.truncate (m\<lparr>files := new_Map (files m)\<rparr>)"
  define db2 where "db2 = cleanupOldSnapshots db1"
  have dflags: "\<not> truthy (autoSave (newSnapshot (gen (length ys)) d))"
    "truthy (isMilestone (newSnapshot (gen (length ys)) d))"
    using mm ma by (simp_all add: d_def newSnapshot_simps) (simp_all add: record_simps)
  have nm2: "length (nonMilestones db2) = maxSnapshots"
    using cleanupOldSnapshots_count(1) [OF d1] nm1 by (simp add: db2_def)
  have "filter (\<lambda>s. truthy (isMilestone s)) db2 = filter (\<lambda>s. truthy (isMilestone s)) db1"
    unfolding db2_def by (rule cleanupOldSnapshots_count(2) [OF d1])
  moreover have "length (filter (\<lambda>s. truthy (isMilestone s)) db1) + length (nonMilestones db1)
                   = length db1"
    unfolding nonMilestones_def by (rule sum_length_filter_compl)
  ultimately have mil2: "length (filter (\<lambda>s. truthy (isMilestone s)) db2) = 0"
    using l1 nm1 by simp
  have "length (filter (\<lambda>s. truthy (isMilestone s)) db2) + length (nonMilestones db2) = length db2"
    unfolding nonMilestones_def by (rule sum_length_filter_compl)
  with mil2 nm2 have l2: "length db2 = maxSnapshots" by simp
  obtain Q where "db2 = filter Q db1" unfolding db2_def using cleanupOldSnapshots_filter by blast
  then have "snap_id ` set db2 \<subseteq> snap_id ` set db1" by auto
  with ids1 have ids2: "snap_id ` set db2 \<subseteq> (\<lambda>j. ''snap_'' @ gen j) ` {..<length ys}" by blast
  have "distinct (map gen [0..<length ys + Suc 0])" using ids lys len by simp
  from fresh_generated_id [OF this ids2]
  have fresh: "''snap_'' @ gen (length ys) \<notin> snap_id ` set db2" .
  define b where "b = newSnapshot (gen (length ys)) d"
  have add: "store_add b db2 = Inr (insort_key snap_id b db2)"
    using fresh by (simp add: store_add_def b_def newSnapshot_simps)
  have save: "saveSnapshot (gen (length ys)) d db1 = (Inr b, insort_key snap_id b db2)"
    using dflags(1) add
    by (simp add: saveSnapshot_def Let_def b_def [symmetric] db2_def [symmetric] Map_entries_def)
  have "import_loop gen 0 xs 0 [] = (Inr (length ys + 1), insort_key snap_id b db2)"
    unfolding xs import_loop_append loop1 using save by (simp add: d_def)
  then have "importSnapshots gen (JSON_parse_stringify (exportSnapshots today db)) []
          = (Inr (length db), insort_key snap_id b db2)"
    using lys len by (simp add: exported_snapshots importSnapshots_def xs_def)
  moreover have "length (insort_key snap_id b db2) = maxSnapshots + 1" using l2 by simp
  ultimately show ?thesis by blast
qed

lemma big_store_kept:
  "mset big_store = mset (map (\<lambda>(nid, d). newSnapshot nid d) big_calls)"
  unfolding big_store_def
proof (rule save_sequence_kept)
  have "[Suc 0..<53] = Suc 0 # [Suc (Suc 0)..<53]" by (rule upt_conv_Cons) simp
  then have u: "[1..<53] = 1 # [2..<53]" by (simp only: One_nat_def numeral_2_eq_2)
  have "map fst big_calls = map nid_of [1..<53]"
    unfolding u by (simp add: big_calls_def comp_def)
  then show "distinct (map fst big_calls)" by (simp only: distinct_nid_of)
  have l: "length (butlast big_calls) = 51" by (simp add: big_calls_def)
  have "butlast big_calls
          = (nid_of 1, draft_at 1 Working (Some True) None)
              # map (\<lambda>k. (nid_of k, draft_at (int k) Working None None)) [2..<52]"
    by (simp add: big_calls_def map_butlast [symmetric])
  then show "length (filter (\<lambda>c. \<not> truthy (isMilestone (snd c))) (butlast big_calls)) \<le> maxSnapshots"
    by (simp add: draft_at_def filter_map comp_def maxSnapshots_def)
  have "filter (\<lambda>c. truthy (autoSave (snd c))) big_calls = []"
    by (simp add: big_calls_def draft_at_def filter_map comp_def)
  then have "length (filter (\<lambda>c. truthy (autoSave (snd c))) (butlast big_calls)) = 0"
    using length_filter_butlast_le [of "\<lambda>c. truthy (autoSave (snd c))" big_calls] by simp
  then show "length (filter (\<lambda>c. truthy (autoSave (snd c))) (butlast big_calls)) \<le> maxAutoSaves"
    by simp
qed

text \<open>
  The counterexample to C8 as written. The store \<open>big_store\<close> is what 52 calls of
  \<^verbatim>\<open>saveSnapshot\<close> leave behind (a milestone, then 51 manual saves); it holds 52
  snapshots. Importing its export into the empty store reports 52 imported snapshots and
  leaves 51 in the store.
\<close>

theorem export_import_round_trip_counterexample:
  "length (getAllSnapshots big_store) = 52
   \<and> (\<exists>db'. importSnapshots import_ids
               (JSON_parse_stringify (exportSnapshots ''2025-01-01T00:00:00.000Z'' big_store)) []
               = (Inr 52, db')
            \<and> length (getAllSnapshots db') = 51)"
proof -
  have len: "length big_store = 52"
    using mset_eq_length [OF big_store_kept] by (simp add: big_calls_def)
  have nm: "length (nonMilestones big_store) = 51"
    unfolding nonMilestones_def length_filter_of_mset [OF big_store_kept]
    by (simp add: big_calls_def draft_at_def newSnapshot_simps filter_map comp_def)
  have "length (autoSaves big_store) = 0"
    unfolding autoSaves_def length_filter_of_mset [OF big_store_kept]
    by (simp add: big_calls_def draft_at_def newSnapshot_simps filter_map comp_def)
  then have au: "autoSaves big_store = []" by simp
  have set: "set big_store = set (map (\<lambda>(nid, d). newSnapshot nid d) big_calls)"
    using big_store_kept by (rule mset_eq_setD)
  have new: "1 < timestamp s" if "s \<in> set big_store" "\<not> truthy (isMilestone s)" for s
    using that unfolding set by (auto simp: big_calls_def draft_at_def newSnapshot_simps)
  have old: "timestamp s \<le> 1" if "s \<in> set big_store" "truthy (isMilestone s)" for s
    using that unfolding set by (auto simp: big_calls_def draft_at_def newSnapshot_simps)
  from import_loses_one [of import_ids big_store 1 "''2025-01-01T00:00:00.000Z''",
      OF distinct_import_ids _ _ au new old] len nm
  show ?thesis by (simp add: maxSnapshots_def length_getAllSnapshots)
qed



section \<open>JavaScript numbers: lemmas\<close>

lemma floor_log2_bounds:
  assumes "0 < x"
  shows "2 powi floor_log2 x \<le> x" and "x < 2 powi (floor_log2 x + 1)"
proof -
  obtain p q where pq: "quotient_of x = (p, q)" by (cases "quotient_of x")
  have q: "0 < q" using pq quotient_of_denom_pos by blast
  have x: "x = of_int p / of_int q" using pq quotient_of_div by blast
  have p: "0 < p" using assms q x by (simp add: zero_less_divide_iff)
  define a where "a = bitlen p"
  define b where "b = bitlen q"
  have a1: "1 \<le> a" using p bitlen_eq_zero_iff [of p] bitlen_nonneg [of p] by (simp add: a_def)
  have b1: "1 \<le> b" using q bitlen_eq_zero_iff [of q] bitlen_nonneg [of q] by (simp add: b_def)
  have pb: "(2::int) ^ nat (a - 1) \<le> p" "p < 2 ^ nat a"
    using bitlen_bounds [OF p] by (simp_all add: a_def)
  have qb: "(2::int) ^ nat (b - 1) \<le> q" "q < 2 ^ nat b"
    using bitlen_bounds [OF q] by (simp_all add: b_def)
  have pr: "(2::rat) powi (a - 1) \<le> of_int p" "(of_int p :: rat) < 2 powi a"
  proof -
    have "(of_int ((2::int) ^ nat (a - 1)) :: rat) \<le> of_int p" using pb(1) by (simp only: of_int_le_iff)
    then show "(2::rat) powi (a - 1) \<le> of_int p" using a1 by (simp add: power_int_def)
    have "(of_int p :: rat) < of_int ((2::int) ^ nat a)" using pb(2) by (simp only: of_int_less_iff)
    then show "(of_int p :: rat) < 2 powi a" using a1 by (simp add: power_int_def)
  qed
  have qr: "(2::rat) powi (b - 1) \<le> of_int q" "(of_int q :: rat) < 2 powi b"
  proof -
    have "(of_int ((2::int) ^ nat (b - 1)) :: rat) \<le> of_int q" using qb(1) by (simp only: of_int_le_iff)
    then show "(2::rat) powi (b - 1) \<le> of_int q" using b1 by (simp add: power_int_def)
    have "(of_int q :: rat) < of_int ((2::int) ^ nat b)" using qb(2) by (simp only: of_int_less_iff)
    then show "(of_int q :: rat) < 2 powi b" using b1 by (simp add: power_int_def)
  qed
  have qpos: "(0::rat) < of_int q" using q by simp
  have lower: "(2::rat) powi (a - b - 1) \<le> x"
  proof -
    have "(2::rat) powi (a - b - 1) * of_int q \<le> 2 powi (a - b - 1) * 2 powi b"
      using qr(2) by (intro mult_left_mono) auto
    also have "\<dots> = 2 powi (a - 1)" by (simp add: power_int_add [symmetric])
    also have "\<dots> \<le> of_int p" by (rule pr(1))
    finally show ?thesis using qpos by (simp add: x pos_le_divide_eq)
  qed
  have upper: "x < (2::rat) powi (a - b + 1)"
  proof -
    have "(of_int p :: rat) < 2 powi a" by (rule pr(2))
    also have "\<dots> = 2 powi (a - b + 1) * 2 powi (b - 1)" by (simp add: power_int_add [symmetric])
    also have "\<dots> \<le> 2 powi (a - b + 1) * of_int q"
      using qr(1) by (intro mult_left_mono) auto
    finally show ?thesis using qpos by (simp add: x pos_divide_less_eq)
  qed
  have fl: "floor_log2 x = (if 2 powi (a - b) \<le> x then a - b else a - b - 1)"
    by (simp add: floor_log2_def pq a_def b_def)
  show "2 powi floor_log2 x \<le> x" using lower by (simp add: fl)
  show "x < 2 powi (floor_log2 x + 1)" using upper by (auto simp: fl not_le)
qed


lemma two_powi_less_imp: "(2::rat) powi m < 2 powi n \<Longrightarrow> m < n"
proof (rule ccontr)
  assume lt: "(2::rat) powi m < 2 powi n" and "\<not> m < n"
  then have "n \<le> m" by simp
  then have "(2::rat) powi n \<le> 2 powi m" by (rule power_int_increasing) simp
  with lt show False by simp
qed

lemma two_powi_le_imp: "(2::rat) powi m \<le> 2 powi n \<Longrightarrow> m \<le> n"
proof (rule ccontr)
  assume le: "(2::rat) powi m \<le> 2 powi n" and "\<not> m \<le> n"
  then have "n < m" by simp
  then have "(2::rat) powi n < 2 powi m" by (rule power_int_strict_increasing) simp
  with le show False by simp
qed

lemma floor_log2_unique:
  assumes "0 < x" and "2 powi e \<le> x" and "x < 2 powi (e + 1)"
  shows "floor_log2 x = e"
proof -
  let ?f = "floor_log2 x"
  have "(2::rat) powi ?f < 2 powi (e + 1)"
    using floor_log2_bounds(1) [OF assms(1)] assms(3) by (rule le_less_trans)
  then have "?f < e + 1" by (rule two_powi_less_imp)
  moreover have "(2::rat) powi e < 2 powi (?f + 1)"
    using assms(2) floor_log2_bounds(2) [OF assms(1)] by (rule le_less_trans)
  then have "e < ?f + 1" by (rule two_powi_less_imp)
  ultimately show ?thesis by simp
qed

lemma floor_log2_mono:
  assumes "0 < x" and "x \<le> y"
  shows "floor_log2 x \<le> floor_log2 y"
proof -
  have y: "0 < y" using assms by simp
  have "(2::rat) powi floor_log2 x \<le> x" by (rule floor_log2_bounds(1) [OF assms(1)])
  also have "x \<le> y" by (rule assms(2))
  also have "y < 2 powi (floor_log2 y + 1)" by (rule floor_log2_bounds(2) [OF y])
  finally have "floor_log2 x < floor_log2 y + 1" by (rule two_powi_less_imp)
  then show ?thesis by simp
qed

lemma round_half_even_of_int: "round_half_even (of_int n) = n"
  by (simp add: round_half_even_def)

lemma round_half_even_floor:
  "\<lfloor>m\<rfloor> \<le> round_half_even m" "round_half_even m \<le> \<lfloor>m\<rfloor> + 1"
  by (simp_all add: round_half_even_def Let_def)

lemma round_half_even_ge:
  assumes "of_int n \<le> m"
  shows "n \<le> round_half_even m"
proof -
  have "n \<le> \<lfloor>m\<rfloor>" using assms by (simp add: le_floor_iff)
  with round_half_even_floor(1) [of m] show ?thesis by simp
qed

lemma round_half_even_le:
  assumes "m \<le> of_int n"
  shows "round_half_even m \<le> n"
proof (cases "m = of_int n")
  case True
  then show ?thesis by (simp add: round_half_even_of_int)
next
  case False
  with assms have "m < of_int n" by simp
  then have "\<lfloor>m\<rfloor> < n" by (simp add: floor_less_iff)
  with round_half_even_floor(2) [of m] show ?thesis by simp
qed

lemma round_half_even_mono:
  assumes "m \<le> m'"
  shows "round_half_even m \<le> round_half_even m'"
proof (cases "\<lfloor>m\<rfloor> = \<lfloor>m'\<rfloor>")
  case True
  then have "m - of_int \<lfloor>m\<rfloor> \<le> m' - of_int \<lfloor>m'\<rfloor>" using assms by simp
  with True show ?thesis by (auto simp: round_half_even_def Let_def)
next
  case False
  with assms have "\<lfloor>m\<rfloor> < \<lfloor>m'\<rfloor>" using floor_mono [OF assms] by simp
  with round_half_even_floor(2) [of m] round_half_even_floor(1) [of m'] show ?thesis by simp
qed

text \<open>The double of a positive number whose binary exponent is known.\<close>

lemma to_double_pos:
  assumes "0 < x" and "2 powi e \<le> x" and "x < 2 powi (e + 1)"
  shows "to_double x = of_int (round_half_even (x * 2 powi (52 - e))) * 2 powi (e - 52)"
  using assms floor_log2_unique [OF assms] by (simp add: to_double_def Let_def)

lemma to_double_neg: "to_double (- x) = - to_double x"
  by (simp add: to_double_def Let_def)

lemma to_double_range:
  assumes "0 < x"
  shows "2 powi floor_log2 x \<le> to_double x" and "to_double x \<le> 2 powi (floor_log2 x + 1)"
proof -
  define e where "e = floor_log2 x"
  define s where "s = (2::rat) powi (52 - e)"
  have s: "0 < s" by (simp add: s_def)
  have td: "to_double x = of_int (round_half_even (x * s)) * 2 powi (e - 52)"
    using assms by (simp add: to_double_def Let_def e_def s_def)
  have lo: "2 powi e \<le> x" and hi: "x < 2 powi (e + 1)"
    using floor_log2_bounds [OF assms] by (simp_all add: e_def)
  have "(2::rat) powi e * s \<le> x * s" using lo s by (simp add: mult_right_mono)
  then have "of_int (2 ^ 52) \<le> x * s" by (simp add: s_def power_int_add [symmetric])
  then have "2 ^ 52 \<le> round_half_even (x * s)" by (rule round_half_even_ge)
  then have "(of_int (2 ^ 52) :: rat) \<le> of_int (round_half_even (x * s))"
    by (simp only: of_int_le_iff)
  then have "(of_int (2 ^ 52) :: rat) * 2 powi (e - 52)
               \<le> of_int (round_half_even (x * s)) * 2 powi (e - 52)"
    by (intro mult_right_mono) auto
  moreover have "(of_int (2 ^ 52) :: rat) * 2 powi (e - 52) = 2 powi e"
  proof -
    have "(2::rat) powi 52 * 2 powi (e - 52) = 2 powi (52 + (e - 52))"
      by (rule power_int_add [symmetric]) simp
    then show ?thesis by simp
  qed
  ultimately show "2 powi floor_log2 x \<le> to_double x" by (simp only: td e_def)
  have "x * s \<le> 2 powi (e + 1) * s" using hi s by (simp add: mult_right_mono)
  moreover have "(2::rat) powi (e + 1) * s = 2 powi 53"
    unfolding s_def by (subst power_int_add [symmetric]) simp_all
  ultimately have "x * s \<le> of_int (2 ^ 53)" by simp
  then have "round_half_even (x * s) \<le> 2 ^ 53" by (rule round_half_even_le)
  then have "(of_int (round_half_even (x * s)) :: rat) \<le> of_int (2 ^ 53)"
    by (simp only: of_int_le_iff)
  then have "(of_int (round_half_even (x * s)) :: rat) * 2 powi (e - 52)
               \<le> of_int (2 ^ 53) * 2 powi (e - 52)"
    by (intro mult_right_mono) auto
  moreover have "(of_int (2 ^ 53) :: rat) * 2 powi (e - 52) = 2 powi (e + 1)"
  proof -
    have "(2::rat) powi 53 * 2 powi (e - 52) = 2 powi (53 + (e - 52))"
      by (rule power_int_add [symmetric]) simp
    then show ?thesis by (simp add: add.commute)
  qed
  ultimately show "to_double x \<le> 2 powi (floor_log2 x + 1)" by (simp only: td e_def)
qed

lemma to_double_nonneg: "0 \<le> x \<Longrightarrow> 0 \<le> to_double x"
proof (cases "x = 0")
  case True
  then show ?thesis by (simp add: to_double_def)
next
  case False
  assume "0 \<le> x"
  with False have "0 < x" by simp
  have "(0::rat) \<le> 2 powi floor_log2 x" by simp
  also have "\<dots> \<le> to_double x" by (rule to_double_range(1) [OF \<open>0 < x\<close>])
  finally show ?thesis .
qed

lemma to_double_mono:
  assumes "0 \<le> x" and "x \<le> y"
  shows "to_double x \<le> to_double y"
proof (cases "x = 0")
  case True
  with assms to_double_nonneg [of y] show ?thesis by (simp add: to_double_def)
next
  case False
  with assms have x: "0 < x" and y: "0 < y" by simp_all
  show ?thesis
  proof (cases "floor_log2 x = floor_log2 y")
    case True
    have "x * 2 powi (52 - floor_log2 y) \<le> y * 2 powi (52 - floor_log2 y)"
      using assms(2) by (intro mult_right_mono) auto
    then have "round_half_even (x * 2 powi (52 - floor_log2 y))
                 \<le> round_half_even (y * 2 powi (52 - floor_log2 y))"
      by (rule round_half_even_mono)
    then have "(of_int (round_half_even (x * 2 powi (52 - floor_log2 y))) :: rat)
                 \<le> of_int (round_half_even (y * 2 powi (52 - floor_log2 y)))"
      by (simp only: of_int_le_iff)
    then have "(of_int (round_half_even (x * 2 powi (52 - floor_log2 y))) :: rat) * 2 powi (floor_log2 y - 52)
                 \<le> of_int (round_half_even (y * 2 powi (52 - floor_log2 y))) * 2 powi (floor_log2 y - 52)"
      by (intro mult_right_mono) auto
    then show ?thesis using x y True by (simp add: to_double_def Let_def)
  next
    case False
    with floor_log2_mono [OF x assms(2)] have "floor_log2 x + 1 \<le> floor_log2 y" by simp
    then have "(2::rat) powi (floor_log2 x + 1) \<le> 2 powi floor_log2 y"
      by (intro power_int_increasing) auto
    with to_double_range(2) [OF x] to_double_range(1) [OF y] show ?thesis by linarith
  qed
qed

text \<open>Integers up to \<open>2 ^ 53\<close> are doubles.\<close>

lemma to_double_of_nat:
  assumes "n \<le> 2 ^ 53"
  shows "to_double (of_nat n) = of_nat n"
proof (cases "n = 0")
  case True
  then show ?thesis by (simp add: to_double_def)
next
  case False
  define x :: rat where "x = of_nat n"
  define e where "e = floor_log2 x"
  have x: "0 < x" using False by (simp add: x_def)
  have "(2::rat) powi e \<le> x" using floor_log2_bounds(1) [OF x] by (simp add: e_def)
  also have "x \<le> 2 powi 53"
  proof -
    have "(of_nat n :: rat) \<le> of_nat (2 ^ 53)" using assms by (simp only: of_nat_le_iff)
    then show ?thesis by (simp add: x_def)
  qed
  finally have e: "e \<le> 53" by (rule two_powi_le_imp)
  have e0: "0 \<le> e"
  proof -
    have "(2::rat) powi 0 \<le> x" using False by (simp add: x_def)
    also have "x < 2 powi (e + 1)" using floor_log2_bounds(2) [OF x] by (simp add: e_def)
    finally have "0 < e + 1" by (rule two_powi_less_imp)
    then show ?thesis by simp
  qed
  have td: "to_double x = of_int (round_half_even (x * 2 powi (52 - e))) * 2 powi (e - 52)"
    using floor_log2_bounds [OF x] by (intro to_double_pos [OF x]) (simp_all add: e_def)
  have "to_double x = x"
  proof (cases "e = 53")
    case True
    have "(2::rat) powi 53 \<le> x" using floor_log2_bounds(1) [OF x] True by (simp add: e_def)
    moreover have "x \<le> 2 powi 53" by fact
    ultimately have x53: "x = 2 ^ 53" by simp
    then have "x * 2 powi (52 - e) = of_int (2 ^ 52)" using True by (simp add: power_int_minus)
    then have "round_half_even (x * 2 powi (52 - e)) = 2 ^ 52"
      by (simp only: round_half_even_of_int)
    then show ?thesis unfolding td using True x53 by simp
  next
    case False
    with e have "0 \<le> 52 - e" by simp
    then have p: "(2::rat) powi (52 - e) = of_int (2 ^ nat (52 - e))" by (simp add: power_int_def)
    then have "x * 2 powi (52 - e) = of_int (int n * 2 ^ nat (52 - e))" by (simp add: x_def)
    then have "round_half_even (x * 2 powi (52 - e)) = int n * 2 ^ nat (52 - e)"
      by (simp only: round_half_even_of_int)
    moreover have "(2::rat) powi (52 - e) * 2 powi (e - 52) = 1"
    proof -
      have "(2::rat) powi (52 - e) * 2 powi (e - 52) = 2 powi ((52 - e) + (e - 52))"
        by (rule power_int_add [symmetric]) simp
      then show ?thesis by simp
    qed
    ultimately have "to_double x = x * (2 powi (52 - e) * 2 powi (e - 52))"
      unfolding td by (simp add: p x_def)
    then show ?thesis by (simp only: \<open>(2::rat) powi (52 - e) * 2 powi (e - 52) = 1\<close> mult_1_right)
  qed
  then show ?thesis by (simp add: x_def)
qed



lemma floor_rat_numeral_div:
  "\<lfloor>numeral a / numeral b :: rat\<rfloor> = numeral a div numeral b"
  using floor_divide_of_int_eq [of "numeral a" "numeral b", where ?'a = rat] by simp

text \<open>
  An example where the rounding of the quotient shows: 23 hits in 40 requests are
  reported as 57 per cent, not 58.
\<close>

lemma Math_round_23_of_40: "Math_round (js_times (js_divide 23 40) 100) = 57"
proof -
  have a: "to_double (23 / 40) = 2589569785738035 / 4503599627370496"
    by (subst to_double_pos [where e = "-1"]) (simp_all add: round_half_even_def Let_def power_int_minus floor_rat_numeral_div)
  have b: "to_double (to_double (23 / 40) * 100) = 8092405580431359 / 140737488355328"
    unfolding a by (subst to_double_pos [where e = 5]) (simp_all add: round_half_even_def Let_def power_int_minus floor_rat_numeral_div)
  show ?thesis by (simp add: js_times_def js_divide_def b Math_round_def floor_rat_numeral_div)
qed


section \<open>Response cache: lemmas\<close>

subsection \<open>Evaluating number conversions\<close>

lemma to_digits_small: "n < radix \<Longrightarrow> to_digits radix n = [digit_char n]"
  by (subst to_digits.simps) simp

lemma to_digits_big:
  "2 \<le> radix \<Longrightarrow> radix \<le> n \<Longrightarrow>
     to_digits radix n = to_digits radix (n div radix) @ [digit_char (n mod radix)]"
  by (subst to_digits.simps) simp

lemmas toString_eval = Number_toString_def to_digits_small to_digits_big digit_char_def


subsection \<open>Calls that no other call overlaps\<close>

lemma new_ClaudeAPI_simps:
  "memoryCache (new_ClaudeAPI db) = []"
  "persistentCache (new_ClaudeAPI db) = db"
  "connection_closed (new_ClaudeAPI db) = False"
  "totalRequests (new_ClaudeAPI db) = 0"
  "cacheHits (new_ClaudeAPI db) = 0"
  by (simp_all add: new_ClaudeAPI_def)

text \<open>\<^verbatim>\<open>checkCache\<close> and \<^verbatim>\<open>sendMessage\<close>, run to their end, in one piece.\<close>

lemma checkCache_unfold:
  "checkCache stringify query context st =
     (case generateCacheKey stringify [\<lparr>role = User, content = query\<rparr>] context of
        None \<Rightarrow> (Inl TypeError, st)
      | Some cacheKey \<Rightarrow>
          (let st1 = st\<lparr>totalRequests := totalRequests st + 1\<rparr> in
           case Map_get cacheKey (memoryCache st1) of
             Some entry \<Rightarrow>
               (Inr (Some ((response entry)\<lparr>cached := Some True\<rparr>)),
                st1\<lparr>memoryCache := Map_set cacheKey (entry\<lparr>hits := hits entry + 1\<rparr>) (memoryCache st1),
                    cacheHits := cacheHits st1 + 1\<rparr>)
           | None \<Rightarrow>
               (case (case persistentCache st1 of
                        None \<Rightarrow> Inr None
                      | Some db \<Rightarrow>
                          if connection_closed st1 then Inl InvalidStateError
                          else Inr (map_option (\<lambda>entry. (db, entry)) (map_of db cacheKey))) of
                  Inl e \<Rightarrow> (Inl e, st1)
                | Inr (Some (db, entry)) \<Rightarrow>
                    (let entry1 = entry\<lparr>hits := hits entry + 1\<rparr> in
                     (Inr (Some ((response entry1)\<lparr>cached := Some True\<rparr>)),
                      st1\<lparr>cacheHits := cacheHits st1 + 1,
                          memoryCache := Map_set cacheKey entry1 (memoryCache st1),
                          persistentCache := Some (AList.update cacheKey entry1 db)\<rparr>))
                | Inr None \<Rightarrow>
                    (case findSimilarCacheEntry query (memoryCache st1) of
                       Some similarEntry \<Rightarrow>
                         (Inr (Some ((response similarEntry)\<lparr>cached := Some True\<rparr>)),
                          st1\<lparr>cacheHits := cacheHits st1 + 1\<rparr>)
                     | None \<Rightarrow> (Inr None, st1)))))"
  by (auto simp: checkCache_def checkCache_begin_def Let_def getPersistentCacheEntry_def
      updatePersistentCacheHits_def split: option.splits)

lemma sendMessage_settle_checked:
  "sendMessage_settle (sendMessage_checked cacheKey messages outcome now p) =
     (case checkCache_settle p of
        (Inl e, st1) \<Rightarrow> (Inl e, st1)
      | (Inr (Some cachedResponse), st1) \<Rightarrow> (Inr cachedResponse, st1)
      | (Inr None, st1) \<Rightarrow> sendMessage_settle (Suspended (Await_fetch cacheKey messages outcome now), st1))"
proof (induction p rule: checkCache_settle.induct)
  case (1 w st)
  then show ?case by simp
next
  case (2 r st)
  then show ?case by (cases r) simp_all
next
  case (3 e st)
  then show ?case by simp
qed

lemma sendMessage_unfold:
  "sendMessage stringify now messages context outcome st =
     (case generateCacheKey stringify messages context of
        None \<Rightarrow> (Inl TypeError, st)
      | Some cacheKey \<Rightarrow>
          (if messages = [] then (Inl TypeError, st)
           else
             (case checkCache stringify (content (last messages)) context st of
                (Inl e, st1) \<Rightarrow> (Inl e, st1)
              | (Inr (Some cachedResponse), st1) \<Rightarrow> (Inr cachedResponse, st1)
              | (Inr None, st1) \<Rightarrow>
                  (case api_result outcome of
                     None \<Rightarrow> (Inr (getFallbackResponse (content (last messages))), st1)
                   | Some result \<Rightarrow>
                       (case cacheResponse cacheKey result now st1 of
                          (Inl e, st2) \<Rightarrow> (Inr (getFallbackResponse (content (last messages))), st2)
                        | (Inr u, st2) \<Rightarrow> (Inr result, st2))))))"
  by (auto simp: sendMessage_def sendMessage_begin_def sendMessage_settle_checked checkCache_def
      split: option.splits prod.splits sum.splits)

text \<open>Suspended calls, resumed with nothing in between.\<close>

lemma checkCache_task_settles:
  "foldl (api_event stringify) (st, [CheckCache_task w]) [Resumes 0, Resumes 0]
     = (snd (checkCache_settle (Suspended w, st)), [])"
proof (cases w)
  case (Await_getPersistentCacheEntry cacheKey query entry)
  show ?thesis
  proof (cases entry)
    case None
    with Await_getPersistentCacheEntry show ?thesis
      by (cases "findSimilarCacheEntry query (memoryCache st)") simp_all
  next
    case (Some e)
    with Await_getPersistentCacheEntry show ?thesis
      by (auto simp: Let_def updatePersistentCacheHits_def split: option.splits)
  qed
next
  case (Await_updatePersistentCacheHits outcome cachedResponse)
  then show ?thesis by (cases outcome) simp_all
next
  case (Await_findSimilarCacheEntry similarEntry)
  then show ?thesis by (cases similarEntry) simp_all
qed

lemma checkCache_as_events:
  "foldl (api_event stringify) (st, []) [Begins (Call_checkCache query context), Resumes 0, Resumes 0]
     = (snd (checkCache stringify query context st), [])"
proof -
  obtain p st1 where b: "checkCache_begin stringify query context st = (p, st1)"
    by (cases "checkCache_begin stringify query context st")
  show ?thesis
  proof (cases p)
    case (Suspended w)
    with b checkCache_task_settles [of stringify st1 w] show ?thesis
      by (simp add: checkCache_def)
  next
    case (Returned r)
    with b show ?thesis by (simp add: checkCache_def)
  next
    case (Thrown e)
    with b show ?thesis by (simp add: checkCache_def)
  qed
qed

lemma sendMessage_task_settles:
  "foldl (api_event stringify) (st, [SendMessage_task w]) [Resumes 0, Resumes 0, Resumes 0]
     = (snd (sendMessage_settle (Suspended w, st)), [])"
proof (cases w)
  case (Await_fetch cacheKey messages outcome now)
  then show ?thesis by (auto split: option.splits prod.splits sum.splits)
next
  case (Await_checkCache cacheKey messages outcome now cw)
  have fetch: "foldl (api_event stringify) (s, [SendMessage_task (Await_fetch cacheKey messages outcome now)]) [Resumes 0]
                 = (snd (sendMessage_settle (Suspended (Await_fetch cacheKey messages outcome now), s)), [])" for s
    by (auto split: option.splits prod.splits sum.splits)
  show ?thesis
  proof (cases cw)
    case (Await_getPersistentCacheEntry k query entry)
    show ?thesis
    proof (cases entry)
      case None
      with Await_getPersistentCacheEntry Await_checkCache show ?thesis
        by (cases "findSimilarCacheEntry query (memoryCache st)")
          (auto split: option.splits prod.splits sum.splits)
    next
      case (Some e)
      with Await_getPersistentCacheEntry Await_checkCache show ?thesis
        by (auto simp: Let_def updatePersistentCacheHits_def split: option.splits)
    qed
  next
    case (Await_updatePersistentCacheHits outcome' cachedResponse)
    with Await_checkCache show ?thesis by (cases outcome') simp_all
  next
    case (Await_findSimilarCacheEntry similarEntry)
    with Await_checkCache show ?thesis
      by (cases similarEntry) (auto split: option.splits prod.splits sum.splits)
  qed
qed

lemma sendMessage_as_events:
  "foldl (api_event stringify) (st, [])
     [Begins (Call_sendMessage messages context outcome now), Resumes 0, Resumes 0, Resumes 0]
     = (snd (sendMessage stringify now messages context outcome st), [])"
proof -
  obtain p st1 where b: "sendMessage_begin stringify now messages context outcome st = (p, st1)"
    by (cases "sendMessage_begin stringify now messages context outcome st")
  show ?thesis
  proof (cases p)
    case (Suspended w)
    with b sendMessage_task_settles [of stringify st1 w] show ?thesis
      by (simp add: sendMessage_def)
  next
    case (Returned r)
    with b show ?thesis by (simp add: sendMessage_def)
  next
    case (Thrown e)
    with b show ?thesis by (simp add: sendMessage_def)
  qed
qed

text \<open>
  A call that no other call overlaps is its start followed by its resumptions; three
  are enough for any call, and resuming when nothing is suspended does nothing.
\<close>

lemma api_step_as_events:
  "foldl (api_event stringify) (st, []) [Begins a, Resumes 0, Resumes 0, Resumes 0]
     = (api_step stringify st a, [])"
proof (cases a)
  case (Call_checkCache query ctx)
  with checkCache_as_events [of stringify st query ctx] show ?thesis by simp
next
  case (Call_sendMessage messages ctx outcome now)
  with sendMessage_as_events [of stringify st messages ctx outcome now] show ?thesis by simp
qed (simp_all)

subsection \<open>Sending a message\<close>

lemma request_fails_api_result: "request_fails outcome \<Longrightarrow> api_result outcome = None"
  by (cases outcome rule: request_fails.cases) (auto simp: api_result_def)

lemma checkCache_no_exception:
  assumes "stringify [\<lparr>role = User, content = query\<rparr>] ctx \<noteq> None"
    and "persistentCache st = None \<or> \<not> connection_closed st"
  shows "\<exists>r st1. checkCache stringify query ctx st = (Inr r, st1)
           \<and> (persistentCache st1 = None \<or> \<not> connection_closed st1)"
  using assms
  by (auto simp: checkCache_unfold generateCacheKey_def Let_def split: option.splits)

lemma cacheResponse_no_exception:
  assumes "persistentCache st = None \<or> \<not> connection_closed st"
  shows "fst (cacheResponse k result now st) = Inr ()"
  using assms by (auto simp: cacheResponse_def Let_def split: option.splits)

text \<open>
  C10, as amended. The claim as written fails for the empty message list (see the
  counterexample below): \<^verbatim>\<open>messages[messages.length - 1].content\<close> is evaluated
  before the \<^verbatim>\<open>try\<close> block. For a message list that is not empty, a request that
  \<^verbatim>\<open>JSON.stringify\<close> can write (the list with the context, and the last message with
  the context), and a persistent cache that is absent or whose connection is open, a
  call of \<^verbatim>\<open>sendMessage\<close> that no other call overlaps always returns a response: and
  when the cache has no answer and the request fails (the fetch throws, the response is
  not ok, or the reply has a truthy \<^verbatim>\<open>error\<close>), the response is the fall-back derived
  from the content of the last message.
\<close>

theorem sendMessage_returns_response:
  assumes "messages \<noteq> []"
    and "stringify messages ctx \<noteq> None"
    and "stringify [\<lparr>role = User, content = content (last messages)\<rparr>] ctx \<noteq> None"
    and "persistentCache st = None \<or> \<not> connection_closed st"
  shows "\<exists>r st'. sendMessage stringify now messages ctx outcome st = (Inr r, st')
           \<and> (fst (checkCache stringify (content (last messages)) ctx st) = Inr None
                \<and> request_fails outcome
              \<longrightarrow> r = getFallbackResponse (content (last messages)))"
proof -
  obtain k where k: "generateCacheKey stringify messages ctx = Some k"
    using assms(2) by (auto simp: generateCacheKey_def)
  obtain c st1 where c: "checkCache stringify (content (last messages)) ctx st = (Inr c, st1)"
    and open1: "persistentCache st1 = None \<or> \<not> connection_closed st1"
    using checkCache_no_exception [where stringify = stringify and st = st
        and query = "content (last messages)" and ctx = ctx] assms(3,4)
    by blast
  show ?thesis
  proof (cases c)
    case (Some cachedResponse)
    then show ?thesis using k c assms(1) by (simp add: sendMessage_unfold)
  next
    case None
    show ?thesis
    proof (cases "api_result outcome")
      case None
      with \<open>c = None\<close> k c assms(1) show ?thesis by (simp add: sendMessage_unfold)
    next
      case (Some result)
      then have "\<not> request_fails outcome" using request_fails_api_result by force
      moreover obtain st2 where "cacheResponse k result now st1 = (Inr (), st2)"
        using cacheResponse_no_exception [OF open1, of k result now]
        by (cases "cacheResponse k result now st1") auto
      ultimately show ?thesis
        using Some \<open>c = None\<close> k c assms(1) by (simp add: sendMessage_unfold)
    qed
  qed
qed

theorem sendMessage_returns_response_witness:
  "sendMessage JSON_stringify_request 0 [\<lparr>role = User, content = ''hello''\<rparr>] None Fetch_throws
     (new_ClaudeAPI None)
   = (Inr (getFallbackResponse ''hello''),
      (new_ClaudeAPI None)\<lparr>totalRequests := 1\<rparr>)"
proof -
  have h1: "[\<lparr>role = User, content = ''hello''\<rparr>] \<noteq> []" by simp
  have h2: "JSON_stringify_request [\<lparr>role = User, content = ''hello''\<rparr>] None \<noteq> None"
    by (simp add: JSON_stringify_request_def)
  have h3: "JSON_stringify_request
              [\<lparr>role = User, content = content (last [\<lparr>role = User, content = ''hello''\<rparr>])\<rparr>] None \<noteq> None"
    by (simp add: JSON_stringify_request_def)
  have h4: "persistentCache (new_ClaudeAPI None) = None \<or> \<not> connection_closed (new_ClaudeAPI None)"
    by (simp add: new_ClaudeAPI_simps)
  have miss: "checkCache JSON_stringify_request ''hello'' None (new_ClaudeAPI None)
                = (Inr None, (new_ClaudeAPI None)\<lparr>totalRequests := 1\<rparr>)"
    by (simp add: checkCache_unfold generateCacheKey_def JSON_stringify_request_def new_ClaudeAPI_def
        Map_get_def findSimilarCacheEntry_def Map_entries_def split: option.splits)
  from sendMessage_returns_response [where stringify = JSON_stringify_request and ctx = None
      and messages = "[\<lparr>role = User, content = ''hello''\<rparr>]" and now = 0
      and outcome = Fetch_throws and st = "new_ClaudeAPI None"] h1 h2 h3 h4
  obtain r st' where r: "sendMessage JSON_stringify_request 0 [\<lparr>role = User, content = ''hello''\<rparr>] None
        Fetch_throws (new_ClaudeAPI None) = (Inr r, st')"
    "r = getFallbackResponse ''hello''"
    using miss by auto
  moreover have "st' = (new_ClaudeAPI None)\<lparr>totalRequests := 1\<rparr>"
    using r(1) miss h2 by (auto simp: sendMessage_unfold generateCacheKey_def api_result_def split: option.splits)
  ultimately show ?thesis by simp
qed

text \<open>
  The counterexample to C10 as written: with the empty message list, \<^verbatim>\<open>sendMessage\<close>
  rejects with a \<^verbatim>\<open>TypeError\<close>, whatever the network does.
\<close>

theorem sendMessage_empty_list_counterexample:
  "fst (sendMessage JSON_stringify_request 0 [] None Fetch_throws (new_ClaudeAPI None))
     = Inl TypeError"
  by (simp add: sendMessage_unfold generateCacheKey_def JSON_stringify_request_def)


text \<open>
  Two more inputs for which \<^verbatim>\<open>sendMessage\<close> does not do what C10 as written says. A
  reply whose \<^verbatim>\<open>error\<close> is the empty string carries an error field, but the test
  \<^verbatim>\<open>if (data.error)\<close> lets it pass: the content of the reply is returned, not the
  fall-back. And when the connection of the persistent cache is closed, the
  \<^verbatim>\<open>checkCache\<close> awaited before the \<^verbatim>\<open>try\<close> block throws for a key that is not in
  memory, whatever the network does.
\<close>

lemma sendMessage_empty_error_is_no_failure:
  "fst (sendMessage JSON_stringify_request 0 [\<lparr>role = User, content = ''hello''\<rparr>] None
          (Http_response True 200
             (Some \<lparr>data_content = Some ''x'', data_error = Some [],
                    completion_tokens = None, total_tokens = None\<rparr>))
          (new_ClaudeAPI None))
     = Inr \<lparr>response_content = ''x'', tokens = None, cached = Some False, response_code = None\<rparr>"
proof -
  have miss: "checkCache JSON_stringify_request ''hello'' None (new_ClaudeAPI None)
                = (Inr None, (new_ClaudeAPI None)\<lparr>totalRequests := 1\<rparr>)"
    by (simp add: checkCache_unfold generateCacheKey_def JSON_stringify_request_def new_ClaudeAPI_def
        Map_get_def findSimilarCacheEntry_def Map_entries_def split: option.splits)
  show ?thesis
    by (simp add: sendMessage_unfold generateCacheKey_def JSON_stringify_request_def miss
        api_result_def cacheResponse_def Let_def new_ClaudeAPI_simps split: option.splits)
qed

lemma sendMessage_closed_connection_rejects:
  assumes "messages \<noteq> []"
    and "stringify messages ctx \<noteq> None"
    and "generateCacheKey stringify [\<lparr>role = User, content = content (last messages)\<rparr>] ctx = Some k"
    and "Map_get k (memoryCache st) = None"
    and "persistentCache st \<noteq> None"
    and "connection_closed st"
  shows "fst (sendMessage stringify now messages ctx outcome st) = Inl InvalidStateError"
  using assms
  by (auto simp: sendMessage_unfold checkCache_unfold generateCacheKey_def Let_def
      split: option.splits)

subsection \<open>The shape of the keys\<close>

lemma ToInt32_bounds: "- (2 ^ 31) \<le> ToInt32 x" "ToInt32 x < 2 ^ 31"
proof -
  have "0 \<le> (x + 2 ^ 31) mod 2 ^ 32" "(x + 2 ^ 31) mod 2 ^ 32 < (2 ^ 32 :: int)"
    by simp_all
  moreover have "(2 :: int) ^ 32 = 2 * 2 ^ 31" by simp
  ultimately show "- (2 ^ 31) \<le> ToInt32 x" "ToInt32 x < 2 ^ 31"
    unfolding ToInt32_def by linarith+
qed

lemma hash_step_eval: "hash_step h c = ToInt32 (ToInt32 (h * 32) - h + int (of_char c))"
  by (simp add: hash_step_def Let_def)

lemma hash_content_bounds: "- (2 ^ 31) \<le> hash_content s \<and> hash_content s < 2 ^ 31"
proof (induction s rule: rev_induct)
  case Nil
  show ?case by (simp add: hash_content_def)
next
  case (snoc c s)
  have "hash_content (s @ [c]) = hash_step (hash_content s) c" by (simp add: hash_content_def)
  then show ?case using ToInt32_bounds by (simp add: hash_step_eval)
qed

lemma length_to_digits:
  "2 \<le> r \<Longrightarrow> 0 < k \<Longrightarrow> n < r ^ k \<Longrightarrow> length (to_digits r n) \<le> k"
proof (induction k arbitrary: n)
  case 0
  then show ?case by simp
next
  case (Suc k)
  show ?case
  proof (cases "n < r")
    case True
    then show ?thesis by (simp add: to_digits_small)
  next
    case False
    then have rn: "r \<le> n" by simp
    have k0: "0 < k"
    proof (rule ccontr)
      assume "\<not> 0 < k"
      then have "k = 0" by simp
      with Suc.prems(3) rn show False by simp
    qed
    have "n div r < r ^ k"
      using Suc.prems(1,3) by (simp add: less_mult_imp_div_less mult.commute)
    from Suc.IH [OF Suc.prems(1) k0 this]
    show ?thesis using Suc.prems(1) rn by (simp add: to_digits_big)
  qed
qed

lemma digit_char_plain: "d < 36 \<Longrightarrow> digit_char d \<noteq> CHR ''-'' \<and> digit_char d \<noteq> CHR ''_''"
proof -
  assume "d < 36"
  then have "digit_char d \<in> set ''0123456789abcdefghijklmnopqrstuvwxyz''"
    unfolding digit_char_def by (intro nth_mem) simp
  then show ?thesis by auto
qed

lemma hd_to_digits: "2 \<le> r \<Longrightarrow> r \<le> 36 \<Longrightarrow> hd (to_digits r n) \<in> digit_char ` {..<36}"
proof (induction n rule: less_induct)
  case (less n)
  show ?case
  proof (cases "n < r")
    case True
    then show ?thesis using less.prems by (auto simp: to_digits_small)
  next
    case False
    then have "n div r < n" using less.prems(1) by auto
    from less.IH [OF this less.prems]
    have "hd (to_digits r (n div r)) \<in> digit_char ` {..<36}" .
    moreover have "to_digits r (n div r) \<noteq> []"
      by (subst to_digits.simps) simp
    ultimately show ?thesis using False less.prems(1) by (simp add: to_digits_big)
  qed
qed

lemma Number_toString_36_shape:
  assumes "- (2 ^ 31) \<le> h" and "h < 2 ^ 31"
  shows "length (Number_toString 36 h) \<le> 7"
    and "length (Number_toString 36 h) = 7 \<Longrightarrow> hd (Number_toString 36 h) = CHR ''-''"
proof -
  have small: "length (to_digits 36 n) \<le> 6" if "n \<le> 2 ^ 31" for n :: nat
  proof (rule length_to_digits)
    show "n < 36 ^ 6" using that by simp
  qed simp_all
  have neg: "length (to_digits 36 (nat (- h))) \<le> 6" using assms(1) by (intro small) simp
  have pos: "length (to_digits 36 (nat h)) \<le> 6" using assms(2) by (intro small) simp
  show "length (Number_toString 36 h) \<le> 7"
    using neg pos by (simp add: Number_toString_def)
  show "hd (Number_toString 36 h) = CHR ''-''" if "length (Number_toString 36 h) = 7"
    using that neg pos by (auto simp: Number_toString_def split: if_splits)
qed

lemma startsWith_iff: "startsWith s p \<longleftrightarrow> (\<exists>ss. s = p @ ss)"
  by (induction s p rule: startsWith.induct) auto

lemma string_includes_iff: "string_includes s p \<longleftrightarrow> (\<exists>ps ss. s = ps @ p @ ss)"
proof (induction s)
  case Nil
  show ?case by auto
next
  case (Cons c cs)
  show ?case
  proof
    assume "string_includes (c # cs) p"
    then consider "startsWith (c # cs) p" | "string_includes cs p" by auto
    then show "\<exists>ps ss. c # cs = ps @ p @ ss"
    proof cases
      case 1
      then obtain ss where "c # cs = [] @ p @ ss" by (auto simp: startsWith_iff)
      then show ?thesis by blast
    next
      case 2
      then obtain ps ss where "cs = ps @ p @ ss" using Cons.IH by blast
      then have "c # cs = (c # ps) @ p @ ss" by simp
      then show ?thesis by blast
    qed
  next
    assume "\<exists>ps ss. c # cs = ps @ p @ ss"
    then obtain ps ss where e: "c # cs = ps @ p @ ss" by blast
    show "string_includes (c # cs) p"
    proof (cases ps)
      case Nil
      with e have "startsWith (c # cs) p" by (auto simp: startsWith_iff)
      then show ?thesis by simp
    next
      case (Cons a ps')
      with e have "cs = ps' @ p @ ss" by simp
      then have "string_includes cs p" using Cons.IH by blast
      then show ?thesis by simp
    qed
  qed
qed

text \<open>
  A key is \<open>claude_\<close> followed by at most seven characters, the first of which is a minus
  sign when there are seven. It includes no string of seven characters or more that has
  no underscore and does not start with a minus sign.
\<close>

lemma prefixed_includes_no_category:
  assumes pre: "pre \<noteq> []" "last pre = CHR ''_''" "length pre \<le> 7"
    and t: "length t \<le> 7" "length t = 7 \<Longrightarrow> hd t = CHR ''-''"
    and c: "7 \<le> length c" "CHR ''_'' \<notin> set c" "hd c \<noteq> CHR ''-''"
  shows "\<not> string_includes (pre @ t) c"
proof
  assume "string_includes (pre @ t) c"
  then obtain ps ss where e: "pre @ t = ps @ c @ ss"
    unfolding string_includes_iff by blast
  have tail: False if "t = us @ c @ ss'" for us ss'
  proof -
    have "length t = length us + length c + length ss'" using that by simp
    with t(1) c(1) have "length t = 7" "length us = 0" "length ss' = 0" by linarith+
    with that have "t = c" by simp
    with t(2) \<open>length t = 7\<close> c(3) show False by simp
  qed
  from e obtain us where
    "pre = ps @ us \<and> us @ t = c @ ss \<or> pre @ us = ps \<and> t = us @ c @ ss"
    unfolding append_eq_append_conv2 by blast
  then show False
  proof
    assume 1: "pre = ps @ us \<and> us @ t = c @ ss"
    show False
    proof (cases "us = []")
      case True
      with 1 have "t = [] @ c @ ss" by simp
      then show False by (rule tail)
    next
      case False
      have "length us \<le> length pre" using 1 by simp
      with pre(3) c(1) have "length us \<le> length c" by simp
      moreover from 1 have "take (length us) (us @ t) = take (length us) (c @ ss)" by simp
      ultimately have "us = take (length us) c" by simp
      then have "set us \<subseteq> set c" using set_take_subset [of "length us" c] by simp
      moreover have "last us = CHR ''_''" using 1 False pre(2) by simp
      then have "CHR ''_'' \<in> set us" using False last_in_set [of us] by simp
      ultimately show False using c(2) by blast
    qed
  next
    assume "pre @ us = ps \<and> t = us @ c @ ss"
    then have "t = us @ c @ ss" by simp
    then show False by (rule tail)
  qed
qed

lemma key_includes_no_category:
  assumes "length t \<le> 7" "length t = 7 \<Longrightarrow> hd t = CHR ''-''"
    and "7 \<le> length c" "CHR ''_'' \<notin> set c" "hd c \<noteq> CHR ''-''"
  shows "\<not> string_includes (''claude_'' @ t) c"
  by (rule prefixed_includes_no_category [OF _ _ _ assms]) simp_all

lemma generated_key_includes_no_category:
  assumes "generated_key k" and "category \<in> snd ` set patterns"
  shows "\<not> string_includes k category"
proof -
  from assms(1) obtain s where k: "k = ''claude_'' @ Number_toString 36 (hash_content s)"
    unfolding generated_key_def by blast
  have b: "- (2 ^ 31) \<le> hash_content s" "hash_content s < 2 ^ 31"
    using hash_content_bounds [of s] by simp_all
  have c: "7 \<le> length category \<and> CHR ''_'' \<notin> set category \<and> hd category \<noteq> CHR ''-''"
    using assms(2) by (auto simp: patterns_def)
  show ?thesis
    unfolding k
    using key_includes_no_category [OF Number_toString_36_shape [OF b] _ _ _, of category] c
    by blast
qed

lemma query_category_in_patterns:
  assumes "query_category query = Some category"
  shows "category \<in> snd ` set patterns"
proof -
  from assms obtain x where x: "find (\<lambda>(p, cat). pattern_test p query) patterns = Some x"
    "category = snd x"
    by (auto simp: query_category_def)
  from x(1) obtain i where "i < length patterns" "x = patterns ! i"
    unfolding find_Some_iff by blast
  then have "x \<in> set patterns" by simp
  with x(2) show ?thesis by blast
qed

text \<open>
  The fuzzy tier finds nothing in a memory cache whose keys were generated: no key
  includes the name of a category.
\<close>

lemma findSimilarCacheEntry_generated_keys:
  assumes "\<And>k. k \<in> fst ` set memory \<Longrightarrow> generated_key k"
  shows "findSimilarCacheEntry query memory = None"
proof (cases "query_category query")
  case None
  then show ?thesis by (simp add: findSimilarCacheEntry_def)
next
  case (Some category)
  then have "category \<in> snd ` set patterns" by (rule query_category_in_patterns)
  then have "\<not> string_includes k category" if "k \<in> fst ` set memory" for k
    using assms [OF that] generated_key_includes_no_category by blast
  then have "find (\<lambda>(k, entry). string_includes k category) memory = None"
    by (fastforce simp: find_None_iff)
  with Some show ?thesis by (simp add: findSimilarCacheEntry_def Map_entries_def)
qed


lemma hash_content_snoc: "hash_content (s @ [c]) = hash_step (hash_content s) c"
  by (simp add: hash_content_def)

lemmas key_eval =
  generateCacheKey_def JSON_stringify_request_def json_message_def json_string_def
  json_escape_char_def hash_content_def hash_step_eval ToInt32_def toString_eval

lemma example_keys:
  "generateCacheKey JSON_stringify_request
     [\<lparr>role = User, content = ''fix the error in my code''\<rparr>] None = Some ''claude_-76n5n0''"
  "generateCacheKey JSON_stringify_request
     [\<lparr>role = User, content = ''please fix this error''\<rparr>] None = Some ''claude_-mg4ha7''"
  by (simp_all add: key_eval)

lemma example_categories:
  "query_category ''fix the error in my code'' = Some ''error-fix''"
  "query_category ''please fix this error'' = Some ''error-fix''"
  by (simp_all add: query_category_def patterns_def toLowerCase_def toLowerCase_char_def
      line_terminator_def)

text \<open>
  C5 (the fuzzy tier returns an entry produced under the category of the query) does not
  hold of the code. The tier looks for a key that includes the name of the category, and
  the keys are \<open>claude_\<close> and a hash in base 36. Here the memory cache holds the answer
  to \<open>fix the error in my code\<close>, a question of the category \<open>error-fix\<close>; the
  question \<open>please fix this error\<close> is of the same category, misses both exact tiers, and
  gets no entry from the fuzzy tier: \<^verbatim>\<open>checkCache\<close> returns \<^verbatim>\<open>null\<close>.
\<close>

theorem fuzzy_tier_misses_same_category:
  "map fst (memoryCache one_cached_answer) = [''claude_-76n5n0'']
   \<and> query_category ''fix the error in my code'' = Some ''error-fix''
   \<and> query_category ''please fix this error'' = Some ''error-fix''
   \<and> findSimilarCacheEntry ''please fix this error'' (memoryCache one_cached_answer) = None
   \<and> fst (checkCache JSON_stringify_request ''please fix this error'' None one_cached_answer)
       = Inr None"
proof -
  have miss: "checkCache JSON_stringify_request ''fix the error in my code'' None (new_ClaudeAPI None)
                = (Inr None, (new_ClaudeAPI None)\<lparr>totalRequests := 1\<rparr>)"
    by (simp add: checkCache_unfold example_keys new_ClaudeAPI_def Map_get_def
        findSimilarCacheEntry_def example_categories Map_entries_def)
  have mem: "map fst (memoryCache one_cached_answer) = [''claude_-76n5n0'']"
    by (simp add: one_cached_answer_def sendMessage_unfold example_keys miss api_result_def
        example_reply_def cacheResponse_def Let_def new_ClaudeAPI_simps Map_set_def
        maxMemoryCacheSize_def)
  then obtain e where m: "memoryCache one_cached_answer = [(''claude_-76n5n0'', e)]"
    by (cases "memoryCache one_cached_answer") auto
  have pc: "persistentCache one_cached_answer = None"
    by (simp add: one_cached_answer_def sendMessage_unfold example_keys miss api_result_def
        example_reply_def cacheResponse_def Let_def new_ClaudeAPI_simps)
  have fuzzy: "findSimilarCacheEntry ''please fix this error'' (memoryCache one_cached_answer) = None"
    by (simp add: findSimilarCacheEntry_def example_categories m Map_entries_def)
  have "fst (checkCache JSON_stringify_request ''please fix this error'' None one_cached_answer)
          = Inr None"
    using fuzzy
    by (simp add: checkCache_unfold example_keys Map_get_def m pc Let_def)
  with mem fuzzy example_categories show ?thesis by simp
qed


subsection \<open>The memory cache as a list of entries\<close>

lemma update_new_key: "k \<notin> fst ` set m \<Longrightarrow> AList.update k v m = m @ [(k, v)]"
  by (induction m) auto

lemma length_update_le: "length (AList.update k v m) \<le> Suc (length m)"
  by (induction m) auto

lemma delete_first_key:
  "distinct (map fst ((k, v) # m)) \<Longrightarrow> AList.delete k ((k, v) # m) = m"
  by (simp add: AList.delete_id)

lemma length_delete_present:
  "k \<in> fst ` set m \<Longrightarrow> length (AList.delete k m) < length m"
proof (induction m)
  case Nil
  then show ?case by simp
next
  case (Cons x m)
  show ?case
  proof (cases "fst x = k")
    case True
    have "length (AList.delete k m) \<le> length m" by (rule AList.length_delete_le)
    with True show ?thesis by (cases x) auto
  next
    case False
    with Cons show ?thesis by (cases x) auto
  qed
qed

text \<open>
  \<^verbatim>\<open>cacheResponse\<close> keeps the memory cache within its capacity, and on a full cache
  with a new key it drops the entry that was inserted first.
\<close>

lemma cacheResponse_bound:
  assumes "length (memoryCache st) \<le> maxMemoryCacheSize"
  shows "length (memoryCache (snd (cacheResponse k resp now st))) \<le> maxMemoryCacheSize"
proof -
  define entry where "entry = \<lparr>key = k, response = resp, entry_timestamp = now, hits = 0\<rparr>"
  define memory1 where "memory1 = Map_set k entry (memoryCache st)"
  have l1: "length memory1 \<le> Suc maxMemoryCacheSize"
    using assms using length_update_le [of k entry "memoryCache st"] by (simp add: memory1_def Map_set_def)
  show ?thesis
  proof (cases "length memory1 > maxMemoryCacheSize")
    case False
    then show ?thesis
      by (simp add: cacheResponse_def Let_def entry_def [symmetric] memory1_def [symmetric]
          split: option.splits)
  next
    case True
    then obtain fk fv rest where m: "memory1 = (fk, fv) # rest" by (cases memory1) auto
    have "length (AList.delete fk memory1) < length memory1"
      by (rule length_delete_present) (simp add: m)
    with l1 have "length (AList.delete fk memory1) \<le> maxMemoryCacheSize" by simp
    with True m show ?thesis
      by (simp add: cacheResponse_def Let_def entry_def [symmetric] memory1_def [symmetric]
          Map_delete_def split: option.splits)
  qed
qed

lemma cacheResponse_new_key:
  assumes "distinct (map fst (memoryCache st))" and "k \<notin> fst ` set (memoryCache st)"
  shows "map fst (memoryCache (snd (cacheResponse k resp now st)))
           = (if length (memoryCache st) < maxMemoryCacheSize
              then map fst (memoryCache st) @ [k]
              else tl (map fst (memoryCache st) @ [k]))"
    and "\<not> connection_closed st \<Longrightarrow>
         persistentCache (snd (cacheResponse k resp now st))
           = map_option (AList.update k \<lparr>key = k, response = resp, entry_timestamp = now, hits = 0\<rparr>)
               (persistentCache st)
         \<and> \<not> connection_closed (snd (cacheResponse k resp now st))"
proof -
  define entry where "entry = \<lparr>key = k, response = resp, entry_timestamp = now, hits = 0\<rparr>"
  have m1: "Map_set k entry (memoryCache st) = memoryCache st @ [(k, entry)]"
    using assms(2) by (simp add: Map_set_def update_new_key)
  show "persistentCache (snd (cacheResponse k resp now st))
           = map_option (AList.update k \<lparr>key = k, response = resp, entry_timestamp = now, hits = 0\<rparr>)
               (persistentCache st)
         \<and> \<not> connection_closed (snd (cacheResponse k resp now st))"
    if "\<not> connection_closed st"
    using that by (simp add: cacheResponse_def Let_def split: option.splits)
  show "map fst (memoryCache (snd (cacheResponse k resp now st)))
           = (if length (memoryCache st) < maxMemoryCacheSize
              then map fst (memoryCache st) @ [k]
              else tl (map fst (memoryCache st) @ [k]))"
  proof (cases "length (memoryCache st) < maxMemoryCacheSize")
    case True
    then show ?thesis
      by (simp add: cacheResponse_def Let_def entry_def [symmetric] m1 split: option.splits)
  next
    case False
    then have big: "length (memoryCache st @ [(k, entry)]) > maxMemoryCacheSize" by simp
    obtain fk fv rest where m: "memoryCache st @ [(k, entry)] = (fk, fv) # rest"
      by (cases "memoryCache st @ [(k, entry)]") auto
    have "distinct (map fst (memoryCache st @ [(k, entry)]))" using assms by auto
    then have "AList.delete fk ((fk, fv) # rest) = rest"
      unfolding m by (rule delete_first_key)
    then have "memoryCache (snd (cacheResponse k resp now st)) = rest"
      using big m
      by (simp add: cacheResponse_def Let_def entry_def [symmetric] m1 Map_delete_def
          split: option.splits)
    moreover have "map fst rest = tl (map fst (memoryCache st) @ [k])"
      using arg_cong [OF m, of "\<lambda>x. tl (map fst x)"] by simp
    ultimately show ?thesis using False by simp
  qed
qed

text \<open>
  The promotion of \<^verbatim>\<open>checkCache\<close>: an entry found in the persistent cache is set in
  the memory cache, whatever the size of the memory cache.
\<close>

lemma checkCache_promotion:
  assumes "generateCacheKey stringify [\<lparr>role = User, content = query\<rparr>] ctx = Some k"
    and "k \<notin> fst ` set (memoryCache st)"
    and "persistentCache st = Some db"
    and "map_of db k = Some entry"
    and "\<not> connection_closed st"
  shows "map fst (memoryCache (snd (checkCache stringify query ctx st)))
           = map fst (memoryCache st) @ [k]"
proof -
  have "Map_get k (memoryCache st) = None"
    using assms(2) by (simp add: Map_get_def map_of_eq_None_iff)
  then show ?thesis
    using assms by (simp add: checkCache_unfold Let_def Map_set_def update_new_key)
qed

subsection \<open>A run of new questions\<close>

text \<open>
  A question whose key is in neither cache, answered by the API: \<^verbatim>\<open>sendMessage\<close> misses
  in \<^verbatim>\<open>checkCache\<close> and stores the answer with \<^verbatim>\<open>cacheResponse\<close>.
\<close>

lemma sendMessage_new_question:
  assumes k: "generateCacheKey stringify [\<lparr>role = User, content = q\<rparr>] ctx = Some k"
    and gen: "\<And>k'. k' \<in> fst ` set (memoryCache st) \<Longrightarrow> generated_key k'"
    and dist: "distinct (map fst (memoryCache st))"
    and new_m: "k \<notin> fst ` set (memoryCache st)"
    and pc: "persistentCache st = Some db"
    and new_p: "k \<notin> fst ` set db"
    and op: "\<not> connection_closed st"
    and res: "api_result outcome = Some result"
  shows "map fst (memoryCache
            (snd (sendMessage stringify now [\<lparr>role = User, content = q\<rparr>] ctx outcome st)))
           = (if length (memoryCache st) < maxMemoryCacheSize
              then map fst (memoryCache st) @ [k]
              else tl (map fst (memoryCache st) @ [k]))"
    and "\<exists>db'. persistentCache
            (snd (sendMessage stringify now [\<lparr>role = User, content = q\<rparr>] ctx outcome st)) = Some db'
           \<and> map fst db' = map fst db @ [k]"
    and "\<not> connection_closed
            (snd (sendMessage stringify now [\<lparr>role = User, content = q\<rparr>] ctx outcome st))"
proof -
  define st1 where "st1 = st\<lparr>totalRequests := totalRequests st + 1\<rparr>"
  have m1: "memoryCache st1 = memoryCache st" and p1: "persistentCache st1 = Some db"
    and o1: "\<not> connection_closed st1"
    by (simp_all add: st1_def pc op)
  have "Map_get k (memoryCache st) = None"
    using new_m by (simp add: Map_get_def map_of_eq_None_iff)
  moreover have "map_of db k = None"
    using new_p by (simp add: map_of_eq_None_iff)
  moreover have "findSimilarCacheEntry q (memoryCache st) = None"
    using gen by (rule findSimilarCacheEntry_generated_keys)
  ultimately have miss: "checkCache stringify q ctx st = (Inr None, st1)"
    using k pc op by (simp add: checkCache_unfold Let_def st1_def)
  have d1: "distinct (map fst (memoryCache st1))" and n1: "k \<notin> fst ` set (memoryCache st1)"
    using dist new_m by (simp_all add: m1)
  obtain st2 where c: "cacheResponse k result now st1 = (Inr (), st2)"
    using cacheResponse_no_exception [of st1 k result now] o1
    by (cases "cacheResponse k result now st1") auto
  have send: "sendMessage stringify now [\<lparr>role = User, content = q\<rparr>] ctx outcome st
                = (Inr result, st2)"
    by (simp add: sendMessage_unfold k miss res c)
  have st2: "st2 = snd (cacheResponse k result now st1)" by (simp add: c)
  show "map fst (memoryCache
            (snd (sendMessage stringify now [\<lparr>role = User, content = q\<rparr>] ctx outcome st)))
           = (if length (memoryCache st) < maxMemoryCacheSize
              then map fst (memoryCache st) @ [k]
              else tl (map fst (memoryCache st) @ [k]))"
    using cacheResponse_new_key(1) [OF d1 n1, of result now] by (simp add: send st2 m1)
  have "persistentCache st2
          = Some (db @ [(k, \<lparr>key = k, response = result, entry_timestamp = now, hits = 0\<rparr>)])"
    and o2: "\<not> connection_closed st2"
    using cacheResponse_new_key(2) [OF d1 n1 o1, of result now] new_p
    by (simp_all add: p1 update_new_key st2)
  then show "\<exists>db'. persistentCache
            (snd (sendMessage stringify now [\<lparr>role = User, content = q\<rparr>] ctx outcome st)) = Some db'
           \<and> map fst db' = map fst db @ [k]"
    by (simp add: send)
  show "\<not> connection_closed
            (snd (sendMessage stringify now [\<lparr>role = User, content = q\<rparr>] ctx outcome st))"
    using o2 by (simp add: send)
qed

lemma generateCacheKey_generated:
  "generateCacheKey stringify messages ctx = Some k \<Longrightarrow> generated_key k"
  by (auto simp: generateCacheKey_def generated_key_def split: option.splits)

text \<open>
  Questions with distinct keys, each asked once and answered by the API, no call
  overlapping another, starting with empty caches: the memory cache holds the keys of the
  last \<^verbatim>\<open>maxMemoryCacheSize\<close> questions, in the order of the questions, and the
  persistent cache the keys of all.
\<close>

lemma new_questions_run:
  assumes keys: "\<And>q. q \<in> set qs \<Longrightarrow>
                   generateCacheKey stringify [\<lparr>role = User, content = q\<rparr>] ctx = Some (K q)"
    and dist: "distinct (map K qs)"
    and res: "api_result outcome = Some result"
  shows "map fst (memoryCache (api_run stringify (Some []) (map (ask ctx outcome now) qs)))
           = drop (length qs - maxMemoryCacheSize) (map K qs)
         \<and> (\<exists>db. persistentCache (api_run stringify (Some []) (map (ask ctx outcome now) qs)) = Some db
                \<and> map fst db = map K qs)
         \<and> \<not> connection_closed (api_run stringify (Some []) (map (ask ctx outcome now) qs))"
  using keys dist
proof (induction qs rule: rev_induct)
  case Nil
  then show ?case by (simp add: api_run_def new_ClaudeAPI_simps)
next
  case (snoc q qs)
  define s where "s = api_run stringify (Some []) (map (ask ctx outcome now) qs)"
  have IH: "map fst (memoryCache s) = drop (length qs - maxMemoryCacheSize) (map K qs)"
    and "\<exists>db. persistentCache s = Some db \<and> map fst db = map K qs"
    and op: "\<not> connection_closed s"
    using snoc.IH snoc.prems by (simp_all add: s_def)
  then obtain db where db: "persistentCache s = Some db" "map fst db = map K qs" by blast
  have k: "generateCacheKey stringify [\<lparr>role = User, content = q\<rparr>] ctx = Some (K q)"
    using snoc.prems(1) by simp
  have new: "K q \<notin> set (map K qs)" using snoc.prems(2) by simp
  have mem_keys: "fst ` set (memoryCache s) \<subseteq> set (map K qs)"
    using set_drop_subset [of "length qs - maxMemoryCacheSize" "map K qs"] IH
    by (metis set_map)
  have gen: "generated_key k'" if "k' \<in> fst ` set (memoryCache s)" for k'
  proof -
    from that mem_keys obtain q' where "q' \<in> set qs" "k' = K q'" by auto
    with snoc.prems(1) [of q'] show ?thesis by (auto intro: generateCacheKey_generated)
  qed
  have d: "distinct (map fst (memoryCache s))"
    using snoc.prems(2) by (simp add: IH)
  have new_m: "K q \<notin> fst ` set (memoryCache s)" using new mem_keys by auto
  have new_p: "K q \<notin> fst ` set db" using new db(2) by (metis set_map)
  have len: "length (memoryCache s) = min (length qs) maxMemoryCacheSize"
    using arg_cong [OF IH, of length] by simp
  have step: "api_run stringify (Some []) (map (ask ctx outcome now) (qs @ [q]))
              = snd (sendMessage stringify now [\<lparr>role = User, content = q\<rparr>] ctx outcome s)"
    by (simp add: api_run_def s_def ask_def)
  note sent = sendMessage_new_question [OF k gen d new_m db(1) new_p op res, of now]
  have "map fst (memoryCache (snd (sendMessage stringify now [\<lparr>role = User, content = q\<rparr>] ctx outcome s)))
          = drop (length (qs @ [q]) - maxMemoryCacheSize) (map K (qs @ [q]))"
  proof (cases "length qs < maxMemoryCacheSize")
    case True
    then show ?thesis using sent(1) by (simp add: len IH)
  next
    case False
    then have "length (qs @ [q]) - maxMemoryCacheSize = Suc (length qs - maxMemoryCacheSize)"
      by simp
    moreover have "drop (Suc (length qs - maxMemoryCacheSize)) (map K (qs @ [q]))
                     = tl (drop (length qs - maxMemoryCacheSize) (map K qs) @ [K q])"
    proof -
      have pos: "0 < maxMemoryCacheSize" by (simp add: maxMemoryCacheSize_def)
      with False have le: "Suc (length qs - maxMemoryCacheSize) \<le> length qs" by simp
      have "drop (length qs - maxMemoryCacheSize) (map K qs) \<noteq> []"
        using pos False by simp
      then have "tl (drop (length qs - maxMemoryCacheSize) (map K qs) @ [K q])
                   = tl (drop (length qs - maxMemoryCacheSize) (map K qs)) @ [K q]"
        by simp
      moreover have "drop (Suc (length qs - maxMemoryCacheSize)) (map K (qs @ [q]))
                   = drop (Suc (length qs - maxMemoryCacheSize)) (map K qs) @ [K q]"
        using le by simp
      ultimately show ?thesis by (simp add: drop_Suc drop_tl)
    qed
    ultimately show ?thesis using False sent(1) by (simp add: len IH)
  qed
  moreover have "\<exists>db'. persistentCache
       (snd (sendMessage stringify now [\<lparr>role = User, content = q\<rparr>] ctx outcome s)) = Some db'
       \<and> map fst db' = map K (qs @ [q])"
    using sent(2) db(2) by simp
  ultimately show ?case unfolding step using sent(3) by blast
qed


subsection \<open>One hundred and one questions\<close>

text \<open>\<^verbatim>\<open>toString(36)\<close> gives different texts for different integers.\<close>

lemma digit_char_inj:
  assumes "d < 36" and "e < 36" and "digit_char d = digit_char e"
  shows "d = e"
proof -
  have "distinct ''0123456789abcdefghijklmnopqrstuvwxyz''" by simp
  moreover have "d < length ''0123456789abcdefghijklmnopqrstuvwxyz''"
    and "e < length ''0123456789abcdefghijklmnopqrstuvwxyz''"
    using assms(1,2) by simp_all
  ultimately show ?thesis
    using assms(3) unfolding digit_char_def by (simp only: nth_eq_iff_index_eq)
qed

lemma to_digits_not_Nil: "to_digits r n \<noteq> []"
  by (subst to_digits.simps) simp

lemma to_digits_inj:
  assumes "2 \<le> r" and "r \<le> 36" and "to_digits r m = to_digits r n"
  shows "m = n"
  using assms(3)
proof (induction m arbitrary: n rule: less_induct)
  case (less m)
  have single: "a = b" if "a < r" and "to_digits r a = to_digits r b" for a b
  proof (cases "b < r")
    case True
    with that have "digit_char a = digit_char b" by (simp add: to_digits_small)
    with that(1) True assms(2) show ?thesis by (intro digit_char_inj) simp_all
  next
    case False
    then have "to_digits r b = to_digits r (b div r) @ [digit_char (b mod r)]"
      using assms(1) by (simp add: to_digits_big)
    with that have "[digit_char a] = to_digits r (b div r) @ [digit_char (b mod r)]"
      by (simp add: to_digits_small)
    then have "to_digits r (b div r) = []" by simp
    with to_digits_not_Nil show ?thesis by blast
  qed
  show ?case
  proof (cases "m < r \<or> n < r")
    case True
    then show ?thesis using single [of m n] single [of n m] less.prems by auto
  next
    case False
    then have m: "to_digits r m = to_digits r (m div r) @ [digit_char (m mod r)]"
      and n: "to_digits r n = to_digits r (n div r) @ [digit_char (n mod r)]"
      using assms(1) by (simp_all add: to_digits_big)
    from less.prems have "to_digits r (m div r) = to_digits r (n div r)"
      and d: "digit_char (m mod r) = digit_char (n mod r)"
      unfolding m n by simp_all
    moreover have "m div r < m" using False assms(1) by auto
    ultimately have q: "m div r = n div r" using less.IH by blast
    have "m mod r < 36" and "n mod r < 36"
      using assms(1,2) by (auto intro: less_le_trans [of _ r])
    then have "m mod r = n mod r" using d by (rule digit_char_inj)
    with q show ?thesis by (metis div_mult_mod_eq)
  qed
qed

lemma Number_toString_36_inj:
  assumes "Number_toString 36 a = Number_toString 36 b"
  shows "a = b"
proof -
  have no_sign: "to_digits 36 n \<noteq> CHR ''-'' # s" for n s
  proof
    assume eq: "to_digits 36 n = CHR ''-'' # s"
    have "hd (to_digits 36 n) \<in> digit_char ` {..<36}" by (rule hd_to_digits) simp_all
    with eq obtain d where "d < 36" and "digit_char d = CHR ''-''" by auto
    with digit_char_plain [of d] show False by simp
  qed
  show ?thesis
  proof (cases "a < 0")
    case True
    show ?thesis
    proof (cases "b < 0")
      case True
      with \<open>a < 0\<close> assms have "to_digits 36 (nat (- a)) = to_digits 36 (nat (- b))"
        by (simp add: Number_toString_def)
      then have "nat (- a) = nat (- b)" by (intro to_digits_inj [of 36]) simp_all
      with True \<open>a < 0\<close> show ?thesis by simp
    next
      case False
      with True assms no_sign [of "nat b" "to_digits 36 (nat (- a))"] show ?thesis
        by (simp add: Number_toString_def)
    qed
  next
    case False
    show ?thesis
    proof (cases "b < 0")
      case True
      with False assms no_sign [of "nat a" "to_digits 36 (nat (- b))"] show ?thesis
        by (simp add: Number_toString_def)
    next
      case b: False
      with False assms have "to_digits 36 (nat a) = to_digits 36 (nat b)"
        by (simp add: Number_toString_def)
      then have "nat a = nat b" by (intro to_digits_inj [of 36]) simp_all
      with False b show ?thesis by simp
    qed
  qed
qed

text \<open>
  The hashes of the requests of the questions \<^verbatim>\<open>what is 0\<close>, ..., \<^verbatim>\<open>what is 100\<close>.
  The requests differ after the words \<^verbatim>\<open>what is\<close> only, up to which the hash is
  673115003.
\<close>

lemma hash_content_append: "hash_content (a @ b) = foldl hash_step (hash_content a) b"
  by (simp add: hash_content_def)

lemma question_hash_eval:
  "question_hash n
     = foldl hash_step 673115003
         (concat (map json_escape_char (to_digits 10 n)) @ CHR 0x22 # ''}]}'')"
proof -
  define P where "P = ''{'' @ json_string ''messages'' @ '':[{'' @ json_string ''role'' @ '':''
       @ json_string ''user'' @ '','' @ json_string ''content'' @ '':'' @ CHR 0x22 # ''what is ''"
  have "the (JSON_stringify_request [\<lparr>role = User, content = question n\<rparr>] None)
          = P @ (concat (map json_escape_char (to_digits 10 n)) @ CHR 0x22 # ''}]}'')"
    by (simp add: P_def JSON_stringify_request_def json_message_def json_string_def question_def
        json_escape_char_def)
  moreover have "hash_content P = 673115003"
    by (simp add: P_def json_string_def json_escape_char_def hash_content_def hash_step_eval
        ToInt32_def)
  ultimately show ?thesis by (simp add: question_hash_def hash_content_append)
qed

lemma question_hashes:
  "question_hash 0 = 303417136"
  "question_hash 1 = 304340657"
  "question_hash 2 = 305264178"
  "question_hash 3 = 306187699"
  "question_hash 4 = 307111220"
  "question_hash 5 = 308034741"
  "question_hash 6 = 308958262"
  "question_hash 7 = 309881783"
  "question_hash 8 = 310805304"
  "question_hash 9 = 311728825"
  "question_hash 10 = 854873973"
  "question_hash 11 = 855797494"
  "question_hash 12 = 856721015"
  "question_hash 13 = 857644536"
  "question_hash 14 = 858568057"
  "question_hash 15 = 859491578"
  "question_hash 16 = 860415099"
  "question_hash 17 = 861338620"
  "question_hash 18 = 862262141"
  "question_hash 19 = 863185662"
  "question_hash 20 = 883503124"
  "question_hash 21 = 884426645"
  "question_hash 22 = 885350166"
  "question_hash 23 = 886273687"
  "question_hash 24 = 887197208"
  "question_hash 25 = 888120729"
  "question_hash 26 = 889044250"
  "question_hash 27 = 889967771"
  "question_hash 28 = 890891292"
  "question_hash 29 = 891814813"
  "question_hash 30 = 912132275"
  "question_hash 31 = 913055796"
  "question_hash 32 = 913979317"
  "question_hash 33 = 914902838"
  "question_hash 34 = 915826359"
  "question_hash 35 = 916749880"
  "question_hash 36 = 917673401"
  "question_hash 37 = 918596922"
  "question_hash 38 = 919520443"
  "question_hash 39 = 920443964"
  "question_hash 40 = 940761426"
  "question_hash 41 = 941684947"
  "question_hash 42 = 942608468"
  "question_hash 43 = 943531989"
  "question_hash 44 = 944455510"
  "question_hash 45 = 945379031"
  "question_hash 46 = 946302552"
  "question_hash 47 = 947226073"
  "question_hash 48 = 948149594"
  "question_hash 49 = 949073115"
  "question_hash 50 = 969390577"
  "question_hash 51 = 970314098"
  "question_hash 52 = 971237619"
  "question_hash 53 = 972161140"
  "question_hash 54 = 973084661"
  "question_hash 55 = 974008182"
  "question_hash 56 = 974931703"
  "question_hash 57 = 975855224"
  "question_hash 58 = 976778745"
  "question_hash 59 = 977702266"
  "question_hash 60 = 998019728"
  "question_hash 61 = 998943249"
  "question_hash 62 = 999866770"
  "question_hash 63 = 1000790291"
  "question_hash 64 = 1001713812"
  "question_hash 65 = 1002637333"
  "question_hash 66 = 1003560854"
  "question_hash 67 = 1004484375"
  "question_hash 68 = 1005407896"
  "question_hash 69 = 1006331417"
  "question_hash 70 = 1026648879"
  "question_hash 71 = 1027572400"
  "question_hash 72 = 1028495921"
  "question_hash 73 = 1029419442"
  "question_hash 74 = 1030342963"
  "question_hash 75 = 1031266484"
  "question_hash 76 = 1032190005"
  "question_hash 77 = 1033113526"
  "question_hash 78 = 1034037047"
  "question_hash 79 = 1034960568"
  "question_hash 80 = 1055278030"
  "question_hash 81 = 1056201551"
  "question_hash 82 = 1057125072"
  "question_hash 83 = 1058048593"
  "question_hash 84 = 1058972114"
  "question_hash 85 = 1059895635"
  "question_hash 86 = 1060819156"
  "question_hash 87 = 1061742677"
  "question_hash 88 = 1062666198"
  "question_hash 89 = 1063589719"
  "question_hash 90 = 1083907181"
  "question_hash 91 = 1084830702"
  "question_hash 92 = 1085754223"
  "question_hash 93 = 1086677744"
  "question_hash 94 = 1087601265"
  "question_hash 95 = 1088524786"
  "question_hash 96 = 1089448307"
  "question_hash 97 = 1090371828"
  "question_hash 98 = 1091295349"
  "question_hash 99 = 1092218870"
  "question_hash 100 = 741537585"
  by (simp_all add: question_hash_eval json_escape_char_def hash_step_eval ToInt32_def
      to_digits_small to_digits_big digit_char_def)

lemma distinct_question_hashes: "distinct (map question_hash [0..<101])"
proof -
  have "[0..<101] = 0 # 1 # [2..<101]" by (simp add: upt_conv_Cons)
  moreover have "question_hash (Suc 0) = 304340657" using question_hashes(2) by simp
  ultimately show ?thesis by (simp add: question_hashes)
qed

lemma question_key:
  "generateCacheKey JSON_stringify_request [\<lparr>role = User, content = question n\<rparr>] None
     = Some (''claude_'' @ Number_toString 36 (question_hash n))"
  by (simp add: generateCacheKey_def JSON_stringify_request_def question_hash_def)

lemma distinct_question_keys:
  "distinct (map (\<lambda>n. ''claude_'' @ Number_toString 36 (question_hash n)) [0..<101])"
proof -
  have "inj (\<lambda>h. ''claude_'' @ Number_toString 36 h)"
    by (rule injI) (simp add: Number_toString_36_inj)
  then have "distinct (map (\<lambda>h. ''claude_'' @ Number_toString 36 h) (map question_hash [0..<101]))"
    using distinct_question_hashes by (simp only: distinct_map) (auto intro: inj_on_subset)
  then show ?thesis by (simp only: map_map comp_def)
qed

text \<open>
  C4 (the memory cache holds at most \<open>maxMemoryCacheSize\<close> entries after every
  insertion and after every promotion from the persistent cache) does not hold of the
  code. The questions \<^verbatim>\<open>what is 0\<close>, ..., \<^verbatim>\<open>what is 100\<close>
  are asked one after the other on a new object with an empty database, and each is
  answered by the API: \<^verbatim>\<open>cacheResponse\<close> keeps the memory cache at
  \<open>maxMemoryCacheSize\<close> entries, and the first question is the one that has left it.
  Then \<^verbatim>\<open>checkCache\<close> is called with the first question: the entry is found in the
  persistent cache and set in memory, where nothing is deleted, and the memory cache
  holds one entry more than \<open>maxMemoryCacheSize\<close>.
\<close>

theorem promotion_exceeds_maxMemoryCacheSize:
  "length (memoryCache (api_run JSON_stringify_request (Some [])
                          (map (ask None answered 0) hundred_one_questions)))
     = maxMemoryCacheSize
   \<and> Map_get (''claude_'' @ Number_toString 36 (question_hash 0))
         (memoryCache (api_run JSON_stringify_request (Some [])
                         (map (ask None answered 0) hundred_one_questions))) = None
   \<and> length (memoryCache (api_run JSON_stringify_request (Some [])
                            (map (ask None answered 0) hundred_one_questions
                             @ [Call_checkCache (question 0) None])))
       = maxMemoryCacheSize + 1"
proof -
  define K where "K = (\<lambda>q. ''claude_'' @ Number_toString 36
                          (hash_content (the (JSON_stringify_request [\<lparr>role = User, content = q\<rparr>] None))))"
  define st where "st = api_run JSON_stringify_request (Some [])
                          (map (ask None answered 0) hundred_one_questions)"
  have keys: "generateCacheKey JSON_stringify_request [\<lparr>role = User, content = q\<rparr>] None = Some (K q)"
    for q
    by (simp add: generateCacheKey_def JSON_stringify_request_def K_def)
  have Kq: "map K hundred_one_questions
              = map (\<lambda>n. ''claude_'' @ Number_toString 36 (question_hash n)) [0..<101]"
    by (simp add: hundred_one_questions_def K_def question_hash_def)
  then have dist: "distinct (map K hundred_one_questions)"
    using distinct_question_keys by simp
  have len: "length hundred_one_questions = 101" by (simp add: hundred_one_questions_def)
  obtain result where res: "api_result answered = Some result"
    by (simp add: api_result_def answered_def example_reply_def)
  from new_questions_run [where stringify = JSON_stringify_request and ctx = None and K = K
      and qs = hundred_one_questions and outcome = answered and now = 0, OF keys dist res]
  obtain db where mem: "map fst (memoryCache st) = drop 1 (map K hundred_one_questions)"
    and db: "persistentCache st = Some db" "map fst db = map K hundred_one_questions"
    and op: "\<not> connection_closed st"
    by (auto simp: st_def len maxMemoryCacheSize_def)
  have first: "hundred_one_questions = question 0 # tl hundred_one_questions"
    by (simp add: hundred_one_questions_def upt_conv_Cons)
  have K0: "K (question 0) = ''claude_'' @ Number_toString 36 (question_hash 0)"
    by (simp add: K_def question_hash_def)
  have size: "length (memoryCache st) = maxMemoryCacheSize"
    using arg_cong [OF mem, of length] by (simp add: len maxMemoryCacheSize_def)
  have absent: "K (question 0) \<notin> fst ` set (memoryCache st)"
  proof -
    have "distinct (K (question 0) # map K (tl hundred_one_questions))"
      using dist by (subst (asm) first) simp
    moreover have "map fst (memoryCache st) = map K (tl hundred_one_questions)"
      unfolding mem by (subst first) simp
    ultimately show ?thesis by (metis distinct.simps(2) set_map)
  qed
  then have none: "Map_get (K (question 0)) (memoryCache st) = None"
    by (simp add: Map_get_def map_of_eq_None_iff)
  have "K (question 0) \<in> fst ` set db"
  proof -
    have "K (question 0) \<in> set (map K hundred_one_questions)" by (subst first) simp
    then show ?thesis using db(2) by (metis set_map)
  qed
  then obtain entry where entry: "map_of db (K (question 0)) = Some entry"
    by (cases "map_of db (K (question 0))") (auto simp: map_of_eq_None_iff)
  have "map fst (memoryCache (snd (checkCache JSON_stringify_request (question 0) None st)))
          = map fst (memoryCache st) @ [K (question 0)]"
    using keys absent db(1) entry op by (rule checkCache_promotion)
  then have "length (memoryCache (snd (checkCache JSON_stringify_request (question 0) None st)))
               = maxMemoryCacheSize + 1"
    using arg_cong [of _ _ length] size by (metis length_append_singleton length_map Suc_eq_plus1)
  moreover have "api_run JSON_stringify_request (Some [])
                   (map (ask None answered 0) hundred_one_questions @ [Call_checkCache (question 0) None])
                 = snd (checkCache JSON_stringify_request (question 0) None st)"
    by (simp add: api_run_def st_def)
  ultimately show ?thesis using size none unfolding st_def K0 by simp
qed

subsection \<open>The counters\<close>

text \<open>
  What a call that no other call overlaps does to the counters: \<^verbatim>\<open>checkCache\<close> adds
  one to \<open>totalRequests\<close> (unless the serialisation of the request throws, when it
  changes nothing) and at most one to \<open>cacheHits\<close>; \<^verbatim>\<open>clearCache\<close> sets both to
  zero, unless the connection of the persistent cache is closed, when it throws before;
  \<^verbatim>\<open>cacheResponse\<close> and \<^verbatim>\<open>loadCacheToMemory\<close> leave them alone.
\<close>

lemma checkCache_counters:
  "totalRequests (snd (checkCache stringify query ctx st)) = totalRequests st
     \<and> cacheHits (snd (checkCache stringify query ctx st)) = cacheHits st
   \<or> totalRequests (snd (checkCache stringify query ctx st)) = totalRequests st + 1
     \<and> (cacheHits (snd (checkCache stringify query ctx st)) = cacheHits st
        \<or> cacheHits (snd (checkCache stringify query ctx st)) = cacheHits st + 1)"
  by (auto simp: checkCache_unfold Let_def split: option.splits)

lemma checkCache_counts_once:
  assumes "stringify [\<lparr>role = User, content = query\<rparr>] ctx \<noteq> None"
  shows "totalRequests (snd (checkCache stringify query ctx st)) = totalRequests st + 1"
    and "cacheHits (snd (checkCache stringify query ctx st)) \<le> cacheHits st + 1"
    and "cacheHits st \<le> cacheHits (snd (checkCache stringify query ctx st))"
  using assms
  by (auto simp: checkCache_unfold generateCacheKey_def Let_def split: option.splits)

lemma checkCache_connection:
  "connection_closed (snd (checkCache stringify query ctx st)) = connection_closed st"
  by (auto simp: checkCache_unfold Let_def split: option.splits)

lemma cacheResponse_counters:
  "totalRequests (snd (cacheResponse k resp now st)) = totalRequests st"
  "cacheHits (snd (cacheResponse k resp now st)) = cacheHits st"
  "connection_closed (snd (cacheResponse k resp now st)) = connection_closed st"
  by (simp_all add: cacheResponse_def Let_def split: option.splits)

lemma loadCacheToMemory_counters:
  "totalRequests (loadCacheToMemory st) = totalRequests st"
  "cacheHits (loadCacheToMemory st) = cacheHits st"
  "connection_closed (loadCacheToMemory st) = connection_closed st"
  by (simp_all add: loadCacheToMemory_def split: option.splits)

lemma clearCache_counters:
  assumes "\<not> connection_closed st"
  shows "totalRequests (snd (clearCache st)) = 0"
    and "cacheHits (snd (clearCache st)) = 0"
    and "\<not> connection_closed (snd (clearCache st))"
  using assms by (simp_all add: clearCache_def Let_def split: option.splits)

lemma sendMessage_counters:
  "\<exists>st1. (st1 = st \<or> st1 = snd (checkCache stringify (content (last messages)) ctx st))
      \<and> totalRequests (snd (sendMessage stringify now messages ctx outcome st)) = totalRequests st1
      \<and> cacheHits (snd (sendMessage stringify now messages ctx outcome st)) = cacheHits st1
      \<and> connection_closed (snd (sendMessage stringify now messages ctx outcome st))
          = connection_closed st"
proof (cases "generateCacheKey stringify messages ctx = None \<or> messages = []")
  case True
  then have "snd (sendMessage stringify now messages ctx outcome st) = st"
    by (auto simp: sendMessage_unfold split: option.splits)
  then show ?thesis by auto
next
  case False
  obtain r st1 where c: "checkCache stringify (content (last messages)) ctx st = (r, st1)"
    by (cases "checkCache stringify (content (last messages)) ctx st")
  have c1: "connection_closed st1 = connection_closed st"
    using checkCache_connection [of stringify "content (last messages)" ctx st] c by simp
  have "totalRequests (snd (sendMessage stringify now messages ctx outcome st)) = totalRequests st1
      \<and> cacheHits (snd (sendMessage stringify now messages ctx outcome st)) = cacheHits st1
      \<and> connection_closed (snd (sendMessage stringify now messages ctx outcome st))
          = connection_closed st1"
    using False c
      cacheResponse_counters [of _ _ now st1]
    by (auto simp: sendMessage_unfold split: option.splits sum.splits prod.splits)
      (metis snd_conv)+
  with c c1 show ?thesis by (metis snd_conv)
qed

text \<open>
  So, as long as no two calls overlap, \<open>cacheHits\<close> is at most \<open>totalRequests\<close> in
  every state that a new object reaches, and the hit rate lies between 0 and 100.
\<close>

lemma api_step_invariant:
  assumes "cacheHits st \<le> totalRequests st" and "\<not> connection_closed st"
  shows "cacheHits (api_step stringify st a) \<le> totalRequests (api_step stringify st a)
         \<and> \<not> connection_closed (api_step stringify st a)"
proof (cases a)
  case (Call_checkCache query ctx)
  with assms checkCache_counters [of stringify query ctx st]
    checkCache_connection [of stringify query ctx st]
  show ?thesis by auto
next
  case (Call_sendMessage messages ctx outcome now)
  from sendMessage_counters [of st stringify messages ctx now outcome]
  obtain st1 where st1: "st1 = st \<or> st1 = snd (checkCache stringify (content (last messages)) ctx st)"
    "totalRequests (snd (sendMessage stringify now messages ctx outcome st)) = totalRequests st1"
    "cacheHits (snd (sendMessage stringify now messages ctx outcome st)) = cacheHits st1"
    "connection_closed (snd (sendMessage stringify now messages ctx outcome st)) = connection_closed st"
    by blast
  have "cacheHits st1 \<le> totalRequests st1"
    using st1(1) assms checkCache_counters [of stringify "content (last messages)" ctx st] by auto
  with st1 Call_sendMessage assms(2) show ?thesis by simp
next
  case Call_getCacheStats
  with assms show ?thesis by simp
next
  case Call_clearCache
  with assms(2) show ?thesis by (simp add: clearCache_counters)
next
  case Run_loadCacheToMemory
  with assms show ?thesis by (simp add: loadCacheToMemory_counters)
qed

lemma api_run_invariant:
  "cacheHits (api_run stringify db calls) \<le> totalRequests (api_run stringify db calls)
   \<and> \<not> connection_closed (api_run stringify db calls)"
proof (induction calls rule: rev_induct)
  case Nil
  show ?case by (simp add: api_run_def new_ClaudeAPI_def)
next
  case (snoc a calls)
  then show ?case unfolding api_run_def foldl_append by (simp add: api_step_invariant)
qed

lemma hitRate_bounds:
  assumes "cacheHits st \<le> totalRequests st"
  shows "0 \<le> hitRate (getCacheStats st)" and "hitRate (getCacheStats st) \<le> 100"
proof -
  let ?q = "js_divide (of_nat (cacheHits st)) (of_nat (totalRequests st))"
  let ?p = "js_times ?q 100"
  have q0: "0 \<le> ?q" by (simp add: js_divide_def to_double_nonneg)
  have p0: "0 \<le> ?p" using q0 by (simp add: js_times_def to_double_nonneg)
  have p1: "?p \<le> 100" if "totalRequests st > 0"
  proof -
    have "(of_nat (cacheHits st) :: rat) \<le> of_nat (totalRequests st)" using assms by simp
    then have "(of_nat (cacheHits st) / of_nat (totalRequests st) :: rat) \<le> 1"
      using that by (simp add: divide_le_eq_1)
    then have "?q \<le> to_double 1"
      unfolding js_divide_def by (intro to_double_mono) simp_all
    moreover have "to_double 1 = 1" using to_double_of_nat [of 1] by simp
    ultimately have "?q * 100 \<le> 100" by simp
    then have "?p \<le> to_double 100"
      unfolding js_times_def using q0 by (intro to_double_mono) simp_all
    moreover have "to_double 100 = 100" using to_double_of_nat [of 100] by simp
    ultimately show ?thesis by simp
  qed
  have "(0::int) \<le> Math_round ?p" using p0 by (simp add: Math_round_def)
  then show "0 \<le> hitRate (getCacheStats st)" by (simp add: getCacheStats_def)
  have "Math_round ?p \<le> (100::int)" if "totalRequests st > 0"
    using p1 [OF that] by (simp add: Math_round_def floor_le_iff)
  then show "hitRate (getCacheStats st) \<le> 100" by (simp add: getCacheStats_def)
qed

text \<open>The rate is rounded as the doubles of the source are: 23 hits in 40 requests give 57.\<close>

lemma hitRate_23_of_40:
  assumes "cacheHits st = 23" and "totalRequests st = 40"
  shows "hitRate (getCacheStats st) = 57"
  using assms Math_round_23_of_40 by (simp add: getCacheStats_def)

lemma api_run_hitRate:
  "0 \<le> hitRate (getCacheStats (api_run stringify db calls))
   \<and> hitRate (getCacheStats (api_run stringify db calls)) \<le> 100"
  using api_run_invariant [of stringify db calls] hitRate_bounds [of "api_run stringify db calls"]
  by blast

subsection \<open>The counters when calls overlap\<close>

text \<open>
  \<^verbatim>\<open>checkCache\<close> counts the request, waits for the persistent cache, and counts the
  hit when it is resumed. A \<^verbatim>\<open>clearCache\<close> in between resets both counters, and the
  hit is counted all the same: one hit, no request.
\<close>

lemma clearCache_between:
  assumes "generateCacheKey stringify [\<lparr>role = User, content = query\<rparr>] ctx = Some k"
    and "Map_get k (memoryCache st) = None"
    and "persistentCache st = Some db"
    and "map_of db k = Some entry"
    and "\<not> connection_closed st"
  shows "foldl (api_event stringify) (st, [])
           [Begins (Call_checkCache query ctx), Begins Call_clearCache, Resumes 0, Resumes 0]
         = (st\<lparr>memoryCache := [(k, entry\<lparr>hits := hits entry + 1\<rparr>)],
               persistentCache := Some [], cacheHits := 1, totalRequests := 0\<rparr>, [])"
  using assms
  by (simp add: checkCache_begin_def getPersistentCacheEntry_def updatePersistentCacheHits_def
      clearCache_def Let_def Map_set_def)

lemma checkCache_memory_hit:
  assumes "generateCacheKey stringify [\<lparr>role = User, content = query\<rparr>] ctx = Some k"
    and "Map_get k (memoryCache st) = Some entry"
  shows "totalRequests (fst (api_event stringify (st, []) (Begins (Call_checkCache query ctx))))
           = totalRequests st + 1"
    and "cacheHits (fst (api_event stringify (st, []) (Begins (Call_checkCache query ctx))))
           = cacheHits st + 1"
  using assms by (simp_all add: checkCache_begin_def Let_def)

text \<open>The example: the question is in the database of the earlier sessions only.\<close>

lemma earlier_sessions_loaded:
  "Map_get ''claude_-76n5n0'' (memoryCache (loadCacheToMemory (new_ClaudeAPI (Some earlier_sessions))))
     = None"
  "persistentCache (loadCacheToMemory (new_ClaudeAPI (Some earlier_sessions))) = Some earlier_sessions"
  "\<not> connection_closed (loadCacheToMemory (new_ClaudeAPI (Some earlier_sessions)))"
  "totalRequests (loadCacheToMemory (new_ClaudeAPI (Some earlier_sessions))) = 0"
  "cacheHits (loadCacheToMemory (new_ClaudeAPI (Some earlier_sessions))) = 0"
  by code_simp+

lemma earlier_sessions_question:
  "map_of earlier_sessions ''claude_-76n5n0'' = Some (snd (earlier_answer ''claude_-76n5n0'' 0))"
  by (simp add: earlier_sessions_def earlier_answer_def)

text \<open>
  C9 (\<open>cacheHits\<close> is at most \<open>totalRequests\<close> in every state that the object
  reaches, and the reported hit rate lies between 0 and 100) does not hold of the code.
  After the five events, \<open>cacheHits\<close> is 1 and
  \<open>totalRequests\<close> is 0, and \<^verbatim>\<open>getCacheStats\<close> reports -1 misses; after one more
  call of \<^verbatim>\<open>checkCache\<close> with the same question, a hit in memory, it reports a hit
  rate of 200.
\<close>

theorem clearCache_during_checkCache_breaks_counters:
  "cacheHits (fst (api_events JSON_stringify_request (Some earlier_sessions)
                     clearCache_overlaps_checkCache)) = 1
   \<and> totalRequests (fst (api_events JSON_stringify_request (Some earlier_sessions)
                           clearCache_overlaps_checkCache)) = 0
   \<and> cacheMisses (getCacheStats (fst (api_events JSON_stringify_request (Some earlier_sessions)
                                         clearCache_overlaps_checkCache))) = - 1
   \<and> hitRate (getCacheStats (fst (api_events JSON_stringify_request (Some earlier_sessions)
                                     (clearCache_overlaps_checkCache
                                      @ [Begins (Call_checkCache ''fix the error in my code'' None)]))))
       = 200"
proof -
  define st0 where "st0 = loadCacheToMemory (new_ClaudeAPI (Some earlier_sessions))"
  define st4 where "st4 = fst (api_events JSON_stringify_request (Some earlier_sessions)
                                 clearCache_overlaps_checkCache)"
  define st5 where "st5 = fst (api_events JSON_stringify_request (Some earlier_sessions)
                                 (clearCache_overlaps_checkCache
                                  @ [Begins (Call_checkCache ''fix the error in my code'' None)]))"
  have run: "api_events JSON_stringify_request (Some earlier_sessions) clearCache_overlaps_checkCache
          = foldl (api_event JSON_stringify_request) (st0, [])
              [Begins (Call_checkCache ''fix the error in my code'' None), Begins Call_clearCache,
               Resumes 0, Resumes 0]"
    by (simp add: api_events_def clearCache_overlaps_checkCache_def st0_def)
  have four: "api_events JSON_stringify_request (Some earlier_sessions) clearCache_overlaps_checkCache
          = (st0\<lparr>memoryCache :=
                    [(''claude_-76n5n0'',
                      (snd (earlier_answer ''claude_-76n5n0'' 0))
                        \<lparr>hits := hits (snd (earlier_answer ''claude_-76n5n0'' 0)) + 1\<rparr>)],
                  persistentCache := Some [], cacheHits := 1, totalRequests := 0\<rparr>, [])"
    unfolding run
  proof (rule clearCache_between [OF example_keys(1)])
    show "Map_get ''claude_-76n5n0'' (memoryCache st0) = None"
      by (simp add: st0_def earlier_sessions_loaded)
    show "persistentCache st0 = Some earlier_sessions"
      by (simp add: st0_def earlier_sessions_loaded)
    show "map_of earlier_sessions ''claude_-76n5n0'' = Some (snd (earlier_answer ''claude_-76n5n0'' 0))"
      by (rule earlier_sessions_question)
    show "\<not> connection_closed st0"
      by (simp add: st0_def earlier_sessions_loaded)
  qed
  have hits4: "cacheHits st4 = 1" and total4: "totalRequests st4 = 0"
    and memory4: "Map_get ''claude_-76n5n0'' (memoryCache st4)
                    = Some ((snd (earlier_answer ''claude_-76n5n0'' 0))
                             \<lparr>hits := hits (snd (earlier_answer ''claude_-76n5n0'' 0)) + 1\<rparr>)"
    by (simp_all add: st4_def four Map_get_def)
  have misses: "cacheMisses (getCacheStats st4) = - 1"
    by (simp add: getCacheStats_def hits4 total4)
  have pair4: "api_events JSON_stringify_request (Some earlier_sessions)
                 clearCache_overlaps_checkCache = (st4, [])"
    by (simp add: st4_def four)
  have "st5 = fst (api_event JSON_stringify_request
                     (api_events JSON_stringify_request (Some earlier_sessions)
                        clearCache_overlaps_checkCache)
                     (Begins (Call_checkCache ''fix the error in my code'' None)))"
    by (simp add: st5_def api_events_def)
  then have "st5 = fst (api_event JSON_stringify_request (st4, [])
                     (Begins (Call_checkCache ''fix the error in my code'' None)))"
    by (simp only: pair4)
  then have "totalRequests st5 = 1" and "cacheHits st5 = 2"
    using checkCache_memory_hit [OF example_keys(1) memory4] hits4 total4 by simp_all
  moreover have "Math_round (js_times (js_divide 2 1) 100) = 200"
  proof -
    have "to_double 2 = 2" using to_double_of_nat [of 2] by simp
    moreover have "to_double 200 = 200" using to_double_of_nat [of 200] by simp
    ultimately show ?thesis
      by (simp add: js_times_def js_divide_def Math_round_def floor_rat_numeral_div)
  qed
  ultimately have "hitRate (getCacheStats st5) = 200" by (simp add: getCacheStats_def)
  with hits4 total4 misses show ?thesis unfolding st4_def st5_def by simp
qed

section \<open>Offline queue: the claims\<close>

text \<open>
  What the two functions do, whatever the store holds: the variable \<^verbatim>\<open>queue\<close> is a
  request object, \<^verbatim>\<open>queue.length\<close> is \<^verbatim>\<open>undefined\<close>, so \<^verbatim>\<open>addToOfflineQueue\<close> never
  deletes, and the \<^verbatim>\<open>for\<close> statement of \<^verbatim>\<open>processOfflineQueue\<close> throws before the
  first replay.
\<close>

lemma addToOfflineQueue_adds:
  "addToOfflineQueue now requestData store =
     (if Number_toString 10 now \<in> set (map item_id store) then store
      else insort_key item_id \<lparr>item_id = Number_toString 10 now, data = requestData\<rparr> store)"
  by (simp add: addToOfflineQueue_def offline_getAll_def await_value_def Let_def)

lemma addToOfflineQueue_never_shrinks:
  "length store \<le> length (addToOfflineQueue now requestData store)"
  by (simp add: addToOfflineQueue_adds)

lemma processOfflineQueue_replays_nothing:
  "processOfflineQueue fetch store = ([], store)"
  by (simp add: processOfflineQueue_def offline_getAll_def await_value_def)

text \<open>
  C6 (the queue never holds more than ten items, the oldest is dropped) does not hold
  of the code: eleven requests queued one after the other, into an empty queue, leave
  eleven items, the first one among them.
\<close>

theorem offline_queue_exceeds_MAX_QUEUE_SIZE:
  "map item_id (enqueue_all eleven_requests [])
     = [''1700000000001'', ''1700000000002'', ''1700000000003'', ''1700000000004'',
        ''1700000000005'', ''1700000000006'', ''1700000000007'', ''1700000000008'',
        ''1700000000009'', ''1700000000010'', ''1700000000011'']
   \<and> length (enqueue_all eleven_requests []) = MAX_QUEUE_SIZE + 1"
proof -
  have ids: "map (\<lambda>(now, requestData). Number_toString 10 now) eleven_requests
      = [''1700000000001'', ''1700000000002'', ''1700000000003'', ''1700000000004'',
         ''1700000000005'', ''1700000000006'', ''1700000000007'', ''1700000000008'',
         ''1700000000009'', ''1700000000010'', ''1700000000011'']"
    by (simp add: eleven_requests_def toString_eval)
  have app: "addToOfflineQueue now requestData store
               = store @ [\<lparr>item_id = Number_toString 10 now, data = requestData\<rparr>]"
    if "\<forall>x\<in>set store. item_id x < Number_toString 10 now" for now requestData store
  proof -
    have "Number_toString 10 now \<notin> set (map item_id store)" using that by auto
    moreover have "insort_key item_id \<lparr>item_id = Number_toString 10 now, data = requestData\<rparr> store
        = store @ [\<lparr>item_id = Number_toString 10 now, data = requestData\<rparr>]"
      using that by (induction store) (auto simp: not_le [symmetric] less_imp_le)
    ultimately show ?thesis by (simp add: addToOfflineQueue_adds)
  qed
  have all: "map item_id (foldl (\<lambda>s (now, requestData). addToOfflineQueue now requestData s) store calls)
               = map item_id store @ map (\<lambda>(now, requestData). Number_toString 10 now) calls"
    if "sorted_wrt (<) (map item_id store @ map (\<lambda>(now, requestData). Number_toString 10 now) calls)"
    for store calls
    using that
  proof (induction calls arbitrary: store)
    case Nil
    show ?case by simp
  next
    case (Cons c calls)
    obtain now requestData where c: "c = (now, requestData)" by (cases c)
    have lt: "\<forall>x\<in>set store. item_id x < Number_toString 10 now"
      using Cons.prems by (auto simp: c sorted_wrt_append)
    have "sorted_wrt (<) (map item_id (store @ [\<lparr>item_id = Number_toString 10 now, data = requestData\<rparr>])
            @ map (\<lambda>(now, requestData). Number_toString 10 now) calls)"
      using Cons.prems by (simp add: c)
    from Cons.IH [OF this] show ?case by (simp add: c app [OF lt])
  qed
  have "sorted_wrt (<) [''1700000000001'', ''1700000000002'', ''1700000000003'', ''1700000000004'',
         ''1700000000005'', ''1700000000006'', ''1700000000007'', ''1700000000008'',
         ''1700000000009'', ''1700000000010'', ''1700000000011'']"
    by code_simp
  then have "map item_id (enqueue_all eleven_requests [])
     = [''1700000000001'', ''1700000000002'', ''1700000000003'', ''1700000000004'',
        ''1700000000005'', ''1700000000006'', ''1700000000007'', ''1700000000008'',
        ''1700000000009'', ''1700000000010'', ''1700000000011'']"
    unfolding enqueue_all_def using all [of "[]" eleven_requests] by (simp only: ids list.map append_Nil)
  moreover from this have "length (enqueue_all eleven_requests []) = MAX_QUEUE_SIZE + 1"
    using length_map [of item_id "enqueue_all eleven_requests []"] by (simp add: MAX_QUEUE_SIZE_def)
  ultimately show ?thesis by blast
qed

text \<open>
  C7 (items are replayed oldest first, each on its own) does not hold of the code: with
  two items queued and a network that answers every request with success, no replay is
  attempted and both items stay in the queue.
\<close>

theorem processOfflineQueue_attempts_no_replay:
  "processOfflineQueue (\<lambda>item. Replay_response True) two_items = ([], two_items)"
  by (simp add: processOfflineQueue_def offline_getAll_def await_value_def)


end
